theory Spec2Isabelle
  imports Complex_Main "HOL-Library.Word" "HOL-Library.Multiset" "HOL-Library.Product_Lexorder"
begin

unbundle bit_operations_syntax

section \<open>AssetServer: data model\<close>

text \<open>
  The embedding follows \<^verbatim>\<open>packager/react-packager/src/AssetServer/index.js\<close>.
  A promise is modelled by its settled outcome, a value of \<open>error + 'a\<close>:
  \<open>Inl e\<close> is a rejection with reason \<open>e\<close>, \<open>Inr v\<close> a fulfilment with \<open>v\<close>.
  Where the outcome of a combinator depends on the order in which concurrent
  operations settle, that order is an explicit input, computed from the time at
  which each \<^verbatim>\<open>lstat\<close> calls back.
\<close>

datatype error =
    Error string
  | SystemError string string
  | TypeError string
  | RangeError string
  | AggregateError "error list"

text \<open>
  \<open>Error m\<close> is \<^verbatim>\<open>new Error(m)\<close>; \<open>SystemError code path\<close> is an error of the
  \<^verbatim>\<open>fs\<close> module (\<^verbatim>\<open>ENOENT\<close>, \<^verbatim>\<open>EACCES\<close>, ...); \<open>AggregateError\<close> is
  the rejection of \<^verbatim>\<open>Promise.some\<close>.
\<close>

record stat =
  isDirectory :: bool
  mtime :: int

text \<open>
  \<open>mtime\<close> is \<^verbatim>\<open>stat.mtime.getTime()\<close>, in milliseconds since the epoch.
  The next record is the object that \<^verbatim>\<open>getAssetData\<close> returns.
\<close>

record data =
  name :: string
  type :: string
  scales :: "rat list"
  hash :: string

text \<open>
  The object returned by \<^verbatim>\<open>getAssetDataFromName\<close>. Its resolution is a JavaScript
  number that is never \<^verbatim>\<open>NaN\<close>, so that \<open>\<le>\<close> and \<open><\<close> on it are those of a linear
  order; the model takes rational numbers. An asset record holds the variants of
  one asset name, and the map is the object made by \<^verbatim>\<open>Object.create(null)\<close>.
\<close>

record asset_data =
  resolution :: rat
  assetName :: string
  type :: string
  name :: string

record asset_record =
  scales :: "rat list"
  files :: "string list"

type_synonym asset_map = "string \<rightharpoonup> asset_record"

text \<open>
  The validated options, and the instance the constructor makes from them. The
  leading underscore of \<^verbatim>\<open>_roots\<close>, \<^verbatim>\<open>_assetExts\<close> and
  \<^verbatim>\<open>_getAssetRecord\<close> is written \<open>u_\<close>.
\<close>

record options =
  projectRoots :: "string list"
  assetExts :: "string list"

record asset_server =
  u_roots :: "string list"
  u_assetExts :: "string list"

text \<open>
  The collaborators the module requires and does not define: the filename parser
  \<^verbatim>\<open>lib/getAssetDataFromName\<close> (a pure function), the functions of \<^verbatim>\<open>path\<close>, and
  the file system read through \<^verbatim>\<open>fs\<close>. \<open>lstatDone p\<close> is the time at which the
  \<^verbatim>\<open>lstat\<close> of \<open>p\<close> calls back.
\<close>

record env =
  getAssetDataFromName :: "string \<Rightarrow> asset_data"
  join :: "string \<Rightarrow> string \<Rightarrow> string"
  dirname :: "string \<Rightarrow> string"
  basename :: "string \<Rightarrow> string"
  lstat :: "string \<Rightarrow> error + stat"
  lstatDone :: "string \<Rightarrow> nat"
  readDir :: "string \<Rightarrow> error + string list"
  readFile :: "string \<Rightarrow> error + string"

section \<open>buildAssetMap\<close>

text \<open>
  The loop \<^verbatim>\<open>for (insertIndex = 0; insertIndex < length; insertIndex++)\<close> that
  breaks at the first scale greater than the resolution.
\<close>

function insertIndex_loop :: "rat \<Rightarrow> rat list \<Rightarrow> nat \<Rightarrow> nat" where
  "insertIndex_loop res scs insertIndex =
     (if insertIndex < length scs
      then (if res < scs ! insertIndex then insertIndex
            else insertIndex_loop res scs (Suc insertIndex))
      else insertIndex)"
  by pat_completeness auto
termination
  by (relation "measure (\<lambda>(res, scs, i). length scs - i)") auto

declare insertIndex_loop.simps [simp del]

text \<open>\<^verbatim>\<open>xs.splice(i, 0, x)\<close>: a start beyond the end is clamped to the length.\<close>

definition splice_at :: "nat \<Rightarrow> 'a \<Rightarrow> 'a list \<Rightarrow> 'a list" where
  "splice_at i x xs = take i xs @ x # drop i xs"

text \<open>
  One call of the \<^verbatim>\<open>forEach\<close> callback. The record object is mutated in place in
  the source; the model stores the updated record under its key.
\<close>

definition buildAssetMap_step :: "env \<Rightarrow> string \<Rightarrow> asset_map \<Rightarrow> asset_data \<times> string \<Rightarrow> asset_map" where
  "buildAssetMap_step w dir m af =
     (let asset = fst af; file = snd af;
          record = (case m (assetName asset) of
                      None \<Rightarrow> \<lparr>scales = [], files = []\<rparr>
                    | Some r \<Rightarrow> r);
          insertIndex = insertIndex_loop (resolution asset) (scales record) 0
      in m(assetName asset \<mapsto>
             \<lparr>scales = splice_at insertIndex (resolution asset) (scales record),
              files = splice_at insertIndex (join w dir file) (files record)\<rparr>))"

definition buildAssetMap :: "env \<Rightarrow> string \<Rightarrow> string list \<Rightarrow> asset_map" where
  "buildAssetMap w dir fs =
     (let assets = map (getAssetDataFromName w) fs
      in foldl (buildAssetMap_step w dir) Map.empty (zip assets fs))"

section \<open>Promise combinators\<close>

text \<open>
  \<open>completionOrder done n\<close> lists the indices of \<open>n\<close> concurrent promises in the
  order in which they settle, where promise \<open>i\<close> settles at time \<open>done i\<close>; promises
  that settle at the same time are taken in the order they were started.
\<close>

definition completionOrder :: "(nat \<Rightarrow> nat) \<Rightarrow> nat \<Rightarrow> nat list" where
  "completionOrder done n = sort_key (\<lambda>i. (done i, i)) [0..<n]"

text \<open>
  \<^verbatim>\<open>Promise.some(promises, howMany)\<close> of bluebird: the promise is fulfilled as soon as
  \<open>howMany\<close> of the promises are fulfilled, with their values in the order of
  fulfilment; it is rejected with an aggregate of the reasons, in the order they
  were thrown, as soon as too many are rejected for that to happen, and with a
  range error when there are fewer than \<open>howMany\<close> promises.
\<close>

fun some_loop :: "nat \<Rightarrow> nat \<Rightarrow> (error + 'a) list \<Rightarrow> 'a list \<Rightarrow> error list \<Rightarrow> error + 'a list" where
  "some_loop howMany n [] vals errs = Inl (AggregateError errs)"
| "some_loop howMany n (Inr v # ps) vals errs =
     (if length (vals @ [v]) = howMany then Inr (vals @ [v])
      else some_loop howMany n ps (vals @ [v]) errs)"
| "some_loop howMany n (Inl e # ps) vals errs =
     (if length (errs @ [e]) > n - howMany then Inl (AggregateError (errs @ [e]))
      else some_loop howMany n ps vals (errs @ [e]))"

definition Promise_some :: "(nat \<Rightarrow> nat) \<Rightarrow> (error + 'a) list \<Rightarrow> nat \<Rightarrow> error + 'a list" where
  "Promise_some done ps howMany =
     (if howMany = 0 then Inr []
      else if length ps < howMany
      then Inl (RangeError ''Input array must contain at least 1 items but contains only 0 items'')
      else some_loop howMany (length ps)
             (map (\<lambda>i. ps ! i) (completionOrder done (length ps))) [] [])"

text \<open>
  \<^verbatim>\<open>Promise.all(promises)\<close>: fulfilled with all the values in the order of the array,
  or rejected with the reason of the first promise to be rejected.
\<close>

definition Promise_all :: "(nat \<Rightarrow> nat) \<Rightarrow> (error + 'a) list \<Rightarrow> error + 'a list" where
  "Promise_all done ps =
     (case List.find isl (map (\<lambda>i. ps ! i) (completionOrder done (length ps))) of
        Some (Inl e) \<Rightarrow> Inl e
      | _ \<Rightarrow> Inr (concat (map (\<lambda>p. case p of Inl e \<Rightarrow> [] | Inr v \<Rightarrow> [v]) ps)))"

section \<open>findRoot\<close>

text \<open>
  The promise made for one root. The source stores \<^verbatim>\<open>absPath\<close> in the field
  \<^verbatim>\<open>_path\<close> of the stat object; the model pairs the two.
\<close>

definition probe :: "env \<Rightarrow> string \<Rightarrow> string \<Rightarrow> error + stat \<times> string" where
  "probe w dir aRoot =
     (let absPath = join w aRoot dir
      in case lstat w absPath of
           Inl e \<Rightarrow> Inl e
         | Inr st \<Rightarrow>
             if \<not> isDirectory st then Inl (Error ''Looking for dirs'')
             else Inr (st, absPath))"

definition findRoot :: "env \<Rightarrow> string list \<Rightarrow> string \<Rightarrow> error + string" where
  "findRoot w roots dir =
     (case Promise_some (\<lambda>i. lstatDone w (join w (roots ! i) dir)) (map (probe w dir) roots) 1 of
        Inl e \<Rightarrow> Inl e
      | Inr [] \<Rightarrow> Inl (TypeError ''Cannot read property _path of undefined'')
      | Inr (st # _) \<Rightarrow> Inr (snd st))"

section \<open>AssetServer\<close>

text \<open>
  The constructor. \<^verbatim>\<open>validateOpts\<close> is made by \<^verbatim>\<open>lib/declareOpts\<close>, which this
  module requires; it is an argument here.
\<close>

definition AssetServer :: "('o \<Rightarrow> options) \<Rightarrow> 'o \<Rightarrow> asset_server" where
  "AssetServer validateOpts opts0 =
     (let opts = validateOpts opts0
      in \<lparr>u_roots = projectRoots opts, u_assetExts = assetExts opts\<rparr>)"

definition u_getAssetRecord :: "asset_server \<Rightarrow> env \<Rightarrow> string \<Rightarrow> error + asset_record" where
  "u_getAssetRecord self w assetPath =
     (let filename = basename w assetPath
      in case findRoot w (u_roots self) (dirname w assetPath) of
           Inl e \<Rightarrow> Inl e
         | Inr dir \<Rightarrow>
             (case readDir w dir of
                Inl e \<Rightarrow> Inl e
              | Inr fs \<Rightarrow>
                  (let assetData = getAssetDataFromName w filename;
                       m = buildAssetMap w dir fs
                   in case m (assetName assetData) of
                        None \<Rightarrow> Inl (Error ''Asset not found'')
                      | Some record \<Rightarrow> Inr record)))"

text \<open>
  Reading a JavaScript array at an index: \<open>None\<close> is \<^verbatim>\<open>undefined\<close>, the value of
  a read outside the array. The index is an integer, since \<^verbatim>\<open>files.length - 1\<close>
  is \<open>-1\<close> on an empty array.
\<close>

definition elementAt :: "'a list \<Rightarrow> int \<Rightarrow> 'a option" where
  "elementAt xs i = (if 0 \<le> i \<and> i < int (length xs) then Some (xs ! nat i) else None)"

text \<open>The promisified \<^verbatim>\<open>fs.readFile\<close>; it rejects a path that is not a string.\<close>

definition readFile_promise :: "env \<Rightarrow> string option \<Rightarrow> error + string" where
  "readFile_promise w path =
     (case path of
        None \<Rightarrow> Inl (TypeError ''path must be a string'')
      | Some p \<Rightarrow> readFile w p)"

text \<open>The scan of \<^verbatim>\<open>get\<close>; its value is the argument handed to \<^verbatim>\<open>readFile\<close>.\<close>

function get_loop :: "asset_record \<Rightarrow> rat \<Rightarrow> nat \<Rightarrow> string option" where
  "get_loop record res i =
     (if i < length (scales record)
      then (if scales record ! i \<ge> res then elementAt (files record) (int i)
            else get_loop record res (Suc i))
      else elementAt (files record) (int (length (files record)) - 1))"
  by pat_completeness auto
termination
  by (relation "measure (\<lambda>(record, res, i). length (scales record) - i)") auto

declare get_loop.simps [simp del]

definition get :: "asset_server \<Rightarrow> env \<Rightarrow> string \<Rightarrow> error + string" where
  "get self w assetPath =
     (let assetData = getAssetDataFromName w assetPath
      in case u_getAssetRecord self w assetPath of
           Inl e \<Rightarrow> Inl e
         | Inr record \<Rightarrow> readFile_promise w (get_loop record (resolution assetData) 0))"

section \<open>getAssetData\<close>

subsection \<open>The digest\<close>

text \<open>
  \<^verbatim>\<open>crypto.createHash('md5')\<close> is the MD5 message digest of RFC 1321, written out
  here: the padding of the message, its split into little-endian words, the 64
  steps of each block, and the digest in hexadecimal.
\<close>

definition md5_s :: "nat list" where
  "md5_s = [7, 12, 17, 22, 7, 12, 17, 22, 7, 12, 17, 22, 7, 12, 17, 22,
            5, 9, 14, 20, 5, 9, 14, 20, 5, 9, 14, 20, 5, 9, 14, 20,
            4, 11, 16, 23, 4, 11, 16, 23, 4, 11, 16, 23, 4, 11, 16, 23,
            6, 10, 15, 21, 6, 10, 15, 21, 6, 10, 15, 21, 6, 10, 15, 21]"

definition md5_K :: "32 word list" where
  "md5_K = [0xd76aa478, 0xe8c7b756, 0x242070db, 0xc1bdceee,
0xf57c0faf, 0x4787c62a, 0xa8304613, 0xfd469501,
0x698098d8, 0x8b44f7af, 0xffff5bb1, 0x895cd7be,
0x6b901122, 0xfd987193, 0xa679438e, 0x49b40821,
0xf61e2562, 0xc040b340, 0x265e5a51, 0xe9b6c7aa,
0xd62f105d, 0x02441453, 0xd8a1e681, 0xe7d3fbc8,
0x21e1cde6, 0xc33707d6, 0xf4d50d87, 0x455a14ed,
0xa9e3e905, 0xfcefa3f8, 0x676f02d9, 0x8d2a4c8a,
0xfffa3942, 0x8771f681, 0x6d9d6122, 0xfde5380c,
0xa4beea44, 0x4bdecfa9, 0xf6bb4b60, 0xbebfbc70,
0x289b7ec6, 0xeaa127fa, 0xd4ef3085, 0x04881d05,
0xd9d4d039, 0xe6db99e5, 0x1fa27cf8, 0xc4ac5665,
0xf4292244, 0x432aff97, 0xab9423a7, 0xfc93a039,
0x655b59c3, 0x8f0ccc92, 0xffeff47d, 0x85845dd1,
0x6fa87e4f, 0xfe2ce6e0, 0xa3014314, 0x4e0811a1,
0xf7537e82, 0xbd3af235, 0x2ad7d2bb, 0xeb86d391]"

definition md5_F :: "nat \<Rightarrow> 32 word \<Rightarrow> 32 word \<Rightarrow> 32 word \<Rightarrow> 32 word" where
  "md5_F i b c d =
     (if i < 16 then (b AND c) OR (NOT b AND d)
      else if i < 32 then (d AND b) OR (NOT d AND c)
      else if i < 48 then b XOR c XOR d
      else c XOR (b OR NOT d))"

definition md5_g :: "nat \<Rightarrow> nat" where
  "md5_g i =
     (if i < 16 then i
      else if i < 32 then (5 * i + 1) mod 16
      else if i < 48 then (3 * i + 5) mod 16
      else (7 * i) mod 16)"

fun md5_step :: "32 word list \<Rightarrow> 32 word \<times> 32 word \<times> 32 word \<times> 32 word \<Rightarrow> nat
    \<Rightarrow> 32 word \<times> 32 word \<times> 32 word \<times> 32 word" where
  "md5_step M (a, b, c, d) i =
     (let f = md5_F i b c d + a + md5_K ! i + M ! md5_g i
      in (d, b + word_rotl (md5_s ! i) f, b, c))"

fun md5_block :: "32 word \<times> 32 word \<times> 32 word \<times> 32 word \<Rightarrow> 32 word list
    \<Rightarrow> 32 word \<times> 32 word \<times> 32 word \<times> 32 word" where
  "md5_block (a0, b0, c0, d0) M =
     (case foldl (md5_step M) (a0, b0, c0, d0) [0..<64] of
        (a, b, c, d) \<Rightarrow> (a0 + a, b0 + b, c0 + c, d0 + d))"

text \<open>The \<open>k\<close> low bytes of a word, least significant first.\<close>

fun le_bytes :: "nat \<Rightarrow> 'a::len word \<Rightarrow> 8 word list" where
  "le_bytes 0 x = []"
| "le_bytes (Suc k) x = ucast x # le_bytes k (drop_bit 8 x)"

definition md5_pad :: "8 word list \<Rightarrow> 8 word list" where
  "md5_pad bs =
     bs @ [0x80] @ replicate ((119 - length bs mod 64) mod 64) 0
        @ le_bytes 8 (8 * (of_nat (length bs) :: 64 word))"

fun le_words :: "8 word list \<Rightarrow> 32 word list" where
  "le_words (b0 # b1 # b2 # b3 # bs) =
     (ucast b0 OR push_bit 8 (ucast b1) OR push_bit 16 (ucast b2) OR push_bit 24 (ucast b3))
       # le_words bs"
| "le_words _ = []"

fun md5_blocks :: "32 word \<times> 32 word \<times> 32 word \<times> 32 word \<Rightarrow> 32 word list
    \<Rightarrow> 32 word \<times> 32 word \<times> 32 word \<times> 32 word" where
  "md5_blocks st [] = st"
| "md5_blocks st (w # ws) = md5_blocks (md5_block st (take 16 (w # ws))) (drop 16 (w # ws))"

definition hex_digit :: "8 word \<Rightarrow> char" where
  "hex_digit n = ''0123456789abcdef'' ! unat n"

definition hex_byte :: "8 word \<Rightarrow> string" where
  "hex_byte b = [hex_digit (drop_bit 4 b), hex_digit (b AND 0x0f)]"

definition md5 :: "string \<Rightarrow> string" where
  "md5 s =
     (case md5_blocks (0x67452301, 0xefcdab89, 0x98badcfe, 0x10325476)
             (le_words (md5_pad (map of_char s))) of
        (a, b, c, d) \<Rightarrow> concat (map hex_byte (concat (map (le_bytes 4) [a, b, c, d]))))"

text \<open>
  The hash object holds the data it was given so far: \<^verbatim>\<open>update\<close> appends to it
  and \<^verbatim>\<open>digest('hex')\<close> is the digest of the whole.
\<close>

definition createHash :: "string" where
  "createHash = []"

definition update :: "string \<Rightarrow> string \<Rightarrow> string" where
  "update h d = h @ d"

definition digest :: "string \<Rightarrow> string" where
  "digest h = md5 h"

subsection \<open>Number to string\<close>

text \<open>
  \<^verbatim>\<open>toString\<close> of the integer number \<^verbatim>\<open>getTime()\<close> returns: its decimal digits,
  after a minus sign when it is negative. A time value is at most \<open>8.64e15\<close> in
  magnitude, below the numbers that JavaScript prints with an exponent.
\<close>

definition digit_char :: "int \<Rightarrow> char" where
  "digit_char d = ''0123456789'' ! nat d"

function digits :: "int \<Rightarrow> string" where
  "digits n = (if n < 10 then [digit_char n] else digits (n div 10) @ [digit_char (n mod 10)])"
  by pat_completeness auto
termination
  by (relation "measure nat") auto

declare digits.simps [simp del]

definition toString :: "int \<Rightarrow> string" where
  "toString i = (if i < 0 then CHR ''-'' # digits (- i) else digits i)"

text \<open>The number that a string of decimal digits denotes.\<close>

definition decimal :: "string \<Rightarrow> nat" where
  "decimal s = foldl (\<lambda>a c. 10 * a + (of_char c - 48)) 0 s"

subsection \<open>The metadata\<close>

text \<open>The callback that folds the modification times into the hash object.\<close>

definition hashed :: "stat list \<Rightarrow> string" where
  "hashed stats = foldl (\<lambda>h st. update h (toString (mtime st))) createHash stats"

definition getAssetData :: "asset_server \<Rightarrow> env \<Rightarrow> string \<Rightarrow> error + data" where
  "getAssetData self w assetPath =
     (let nameData = getAssetDataFromName w assetPath
      in case u_getAssetRecord self w assetPath of
           Inl e \<Rightarrow> Inl e
         | Inr record \<Rightarrow>
             (case Promise_all (\<lambda>i. lstatDone w (files record ! i))
                     (map (lstat w) (files record)) of
                Inl e \<Rightarrow> Inl e
              | Inr stats \<Rightarrow>
                  Inr \<lparr>data.name = name nameData, data.type = ''png'',
                       data.scales = scales record, hash = digest (hashed stats)\<rparr>))"

section \<open>Notions used to state the properties\<close>

text \<open>
  The variants of the asset named \<open>n\<close> in a listing: the resolution and the
  qualified path of every listed file whose parsed asset name is \<open>n\<close>, in the
  order of the listing.
\<close>

definition variants :: "env \<Rightarrow> string \<Rightarrow> string \<Rightarrow> string list \<Rightarrow> (rat \<times> string) list" where
  "variants w dir n fs =
     map (\<lambda>f. (resolution (getAssetDataFromName w f), join w dir f))
       (filter (\<lambda>f. assetName (getAssetDataFromName w f) = n) fs)"

text \<open>What inserting after the last scale not above the new one does to a sorted list of pairs.\<close>

definition placed :: "rat \<times> string \<Rightarrow> (rat \<times> string) list \<Rightarrow> (rat \<times> string) list" where
  "placed p ps = takeWhile (\<lambda>q. fst q \<le> fst p) ps @ p # dropWhile (\<lambda>q. fst q \<le> fst p) ps"

text \<open>What \<^verbatim>\<open>buildAssetMap\<close> keeps true of the entry of the map for one name.\<close>

definition record_ok :: "env \<Rightarrow> string \<Rightarrow> string list \<Rightarrow> string \<Rightarrow> asset_record option \<Rightarrow> bool" where
  "record_ok w dir fs n ro =
     (case ro of
        None \<Rightarrow> variants w dir n fs = []
      | Some r \<Rightarrow>
          variants w dir n fs \<noteq> [] \<and>
          length (scales r) = length (files r) \<and>
          sorted (scales r) \<and>
          mset (zip (scales r) (files r)) = mset (variants w dir n fs) \<and>
          (\<forall>k. filter (\<lambda>q. fst q = k) (zip (scales r) (files r)) =
               filter (\<lambda>q. fst q = k) (variants w dir n fs)))"

section \<open>A parser and a file system for the examples\<close>

text \<open>
  The general results hold for every parser, every implementation of
  \<^verbatim>\<open>path\<close> and every file system. The examples run the module on the
  collaborators of this section.
\<close>

subsection \<open>Paths\<close>

text \<open>
  The functions of \<^verbatim>\<open>path\<close> on POSIX paths, for the plain relative and absolute
  paths the examples use: \<open>posix_join\<close> is \<^verbatim>\<open>path.join\<close>, \<open>posix_dirname\<close> is
  \<^verbatim>\<open>path.dirname\<close>, \<open>lastSegment\<close> is \<^verbatim>\<open>path.basename\<close> and \<open>extname\<close> is
  \<^verbatim>\<open>path.extname\<close>.
\<close>

definition lastSegment :: "string \<Rightarrow> string" where
  "lastSegment p = rev (takeWhile (\<lambda>c. c \<noteq> CHR ''/'') (rev p))"

definition extname :: "string \<Rightarrow> string" where
  "extname p =
     (let b = lastSegment p
      in if CHR ''.'' \<in> set b then CHR ''.'' # rev (takeWhile (\<lambda>c. c \<noteq> CHR ''.'') (rev b)) else [])"

definition posix_join :: "string \<Rightarrow> string \<Rightarrow> string" where
  "posix_join a b = (if b = ''.'' then a else a @ ''/'' @ b)"

definition posix_dirname :: "string \<Rightarrow> string" where
  "posix_dirname p =
     (if CHR ''/'' \<in> set p then rev (drop 1 (dropWhile (\<lambda>c. c \<noteq> CHR ''/'') (rev p))) else ''.'')"

subsection \<open>The filename parser\<close>

text \<open>
  The text of a resolution is read as \<^verbatim>\<open>parseFloat\<close> reads it: the digits, then
  the digits after a point; \<open>None\<close> is \<^verbatim>\<open>NaN\<close>. \<open>densitySuffix\<close> splits a name
  that ends with \<^verbatim>\<open>@\<close>, digits and points, and \<^verbatim>\<open>x\<close>.
\<close>

definition isDigit :: "char \<Rightarrow> bool" where
  "isDigit c = (c \<in> set ''0123456789'')"

definition parseFloat :: "string \<Rightarrow> rat option" where
  "parseFloat s =
     (let ip = takeWhile isDigit s;
          fp = (case dropWhile isDigit s of
                  [] \<Rightarrow> []
                | c # r \<Rightarrow> if c = CHR ''.'' then takeWhile isDigit r else [])
      in if ip = [] \<and> fp = [] then None
         else Some (of_nat (decimal ip) + of_nat (decimal fp) / 10 ^ length fp))"

definition densitySuffix :: "string \<Rightarrow> (string \<times> string) option" where
  "densitySuffix stem =
     (case rev stem of
        [] \<Rightarrow> None
      | c # r \<Rightarrow>
          if c \<noteq> CHR ''x'' then None
          else (let num = takeWhile (\<lambda>c. isDigit c \<or> c = CHR ''.'') r
                in case dropWhile (\<lambda>c. isDigit c \<or> c = CHR ''.'') r of
                     [] \<Rightarrow> None
                   | a # base \<Rightarrow>
                       if a = CHR ''@'' \<and> num \<noteq> [] then Some (rev base, rev num) else None))"

text \<open>
  Modelled from the spec: \<^verbatim>\<open>lib/getAssetDataFromName\<close> is required by the module
  and is not part of it. The spec describes it as the pure function
  \<^verbatim>\<open>parseAssetReference\<close> that splits a path into name, resolution and extension,
  where a density suffix such as \<^verbatim>\<open>@2x\<close> before the extension gives the
  resolution and a name without suffix has resolution 1 (\<^verbatim>\<open>icon.png\<close> is scale 1
  and \<^verbatim>\<open>icon@2x.png\<close> is scale 2, both named \<^verbatim>\<open>icon\<close> of type
  \<^verbatim>\<open>png\<close>). The asset name is the file name without the suffix.
\<close>

definition parseAssetReference :: "string \<Rightarrow> asset_data" where
  "parseAssetReference filename =
     (let ext = extname filename;
          stem = take (length filename - length ext) filename
      in case densitySuffix stem of
           None \<Rightarrow>
             \<lparr>resolution = 1, assetName = filename, type = drop 1 ext, name = lastSegment stem\<rparr>
         | Some (base, num) \<Rightarrow>
             \<lparr>resolution = (case parseFloat num of None \<Rightarrow> 1 | Some x \<Rightarrow> x),
              assetName = base @ ext, type = drop 1 ext, name = lastSegment base\<rparr>)"

subsection \<open>File systems\<close>

text \<open>
  A file system is a table from paths to nodes: a directory with its listing, a
  file with its content and modification time, or a path that may not be read.
\<close>

datatype node = Dir "string list" | File string int | Denied

definition fs_lstat :: "(string \<times> node) list \<Rightarrow> string \<Rightarrow> error + stat" where
  "fs_lstat tree p =
     (case map_of tree p of
        None \<Rightarrow> Inl (SystemError ''ENOENT'' p)
      | Some Denied \<Rightarrow> Inl (SystemError ''EACCES'' p)
      | Some (Dir l) \<Rightarrow> Inr \<lparr>isDirectory = True, mtime = 0\<rparr>
      | Some (File c t) \<Rightarrow> Inr \<lparr>isDirectory = False, mtime = t\<rparr>)"

definition fs_readDir :: "(string \<times> node) list \<Rightarrow> string \<Rightarrow> error + string list" where
  "fs_readDir tree p =
     (case map_of tree p of
        None \<Rightarrow> Inl (SystemError ''ENOENT'' p)
      | Some Denied \<Rightarrow> Inl (SystemError ''EACCES'' p)
      | Some (Dir l) \<Rightarrow> Inr l
      | Some (File c t) \<Rightarrow> Inl (SystemError ''ENOTDIR'' p))"

definition fs_readFile :: "(string \<times> node) list \<Rightarrow> string \<Rightarrow> error + string" where
  "fs_readFile tree p =
     (case map_of tree p of
        None \<Rightarrow> Inl (SystemError ''ENOENT'' p)
      | Some Denied \<Rightarrow> Inl (SystemError ''EACCES'' p)
      | Some (Dir l) \<Rightarrow> Inl (SystemError ''EISDIR'' p)
      | Some (File c t) \<Rightarrow> Inr c)"

definition posixEnv :: "(string \<times> node) list \<Rightarrow> (string \<Rightarrow> nat) \<Rightarrow> env" where
  "posixEnv tree done =
     \<lparr>getAssetDataFromName = parseAssetReference,
      join = posix_join, dirname = posix_dirname, basename = lastSegment,
      lstat = fs_lstat tree, lstatDone = done,
      readDir = fs_readDir tree, readFile = fs_readFile tree\<rparr>"

text \<open>The trees of the examples.\<close>

definition projTree :: "(string \<times> node) list" where
  "projTree =
     [(''/proj/img'', Dir [''icon@3x.png'', ''photo.jpg'', ''icon.png'', ''icon@2x.png'']),
      (''/proj/img/icon.png'', File ''one'' 1435708800000),
      (''/proj/img/icon@2x.png'', File ''two'' 1435708800250),
      (''/proj/img/icon@3x.png'', File ''three'' 1435708800500),
      (''/proj/img/photo.jpg'', File ''photo'' 1435708800750)]"

definition tieTree :: "string list \<Rightarrow> (string \<times> node) list" where
  "tieTree listing =
     [(''/proj/img'', Dir listing),
      (''/proj/img/icon.png'', File ''one'' 1435708800000),
      (''/proj/img/icon@1x.png'', File ''one again'' 1435708800250)]"

definition stampTree :: "int \<Rightarrow> int \<Rightarrow> (string \<times> node) list" where
  "stampTree t1 t2 =
     [(''/proj/img'', Dir [''icon.png'', ''icon@2x.png'']),
      (''/proj/img/icon.png'', File ''one'' t1),
      (''/proj/img/icon@2x.png'', File ''two'' t2)]"

definition abTree :: "(string \<times> node) list" where
  "abTree = [(''/A/d'', Dir []), (''/B/d'', Dir [])]"

definition deniedTree :: "(string \<times> node) list" where
  "deniedTree = [(''/A/d'', Denied), (''/B/d'', Dir [])]"

definition bFirst :: "string \<Rightarrow> nat" where
  "bFirst p = (if p = ''/A/d'' then 2 else 1)"

definition atOnce :: "string \<Rightarrow> nat" where
  "atOnce p = 0"

definition projServer :: asset_server where
  "projServer = \<lparr>u_roots = [''/proj''], u_assetExts = [''png'']\<rparr>"

section \<open>buildAssetMap keeps every record sorted\<close>

lemma insertIndex_loop_takeWhile:
  "i \<le> length scs \<Longrightarrow>
   insertIndex_loop res scs i = i + length (takeWhile (\<lambda>s. s \<le> res) (drop i scs))"
proof (induction res scs i rule: insertIndex_loop.induct)
  case (1 res scs i)
  show ?case
  proof (cases "i < length scs")
    case True
    then have d: "drop i scs = scs ! i # drop (Suc i) scs"
      by (simp add: Cons_nth_drop_Suc)
    show ?thesis
    proof (cases "res < scs ! i")
      case True
      with \<open>i < length scs\<close> d show ?thesis
        by (subst insertIndex_loop.simps) simp
    next
      case False
      with \<open>i < length scs\<close> d 1 show ?thesis
        by (subst insertIndex_loop.simps) simp
    qed
  next
    case False
    with 1 show ?thesis
      by (subst insertIndex_loop.simps) simp
  qed
qed

lemma splice_insertIndex:
  "splice_at (insertIndex_loop res scs 0) x xs =
   take (length (takeWhile (\<lambda>s. s \<le> res) scs)) xs @ x # drop (length (takeWhile (\<lambda>s. s \<le> res) scs)) xs"
  by (simp add: splice_at_def insertIndex_loop_takeWhile)

lemma buildAssetMap_Nil: "buildAssetMap w dir [] = Map.empty"
  by (simp add: buildAssetMap_def)

lemma buildAssetMap_snoc:
  "buildAssetMap w dir (fs @ [f]) =
   buildAssetMap_step w dir (buildAssetMap w dir fs) (getAssetDataFromName w f, f)"
  by (simp add: buildAssetMap_def)

lemma variants_snoc:
  "variants w dir n (fs @ [f]) =
   variants w dir n fs @
     (if assetName (getAssetDataFromName w f) = n
      then [(resolution (getAssetDataFromName w f), join w dir f)] else [])"
  by (simp add: variants_def)

lemma zip_splice:
  assumes "length scs = length fls"
  shows "zip (splice_at (insertIndex_loop res scs 0) res scs) (splice_at (insertIndex_loop res scs 0) f fls)
         = placed (res, f) (zip scs fls)"
proof -
  let ?k = "length (takeWhile (\<lambda>s. s \<le> res) scs)"
  have tw: "takeWhile (\<lambda>q. fst q \<le> res) (zip scs fls) = take ?k (zip scs fls)"
    using assms
  proof (induction scs fls rule: list_induct2)
    case Nil then show ?case by simp
  next
    case (Cons x xs y ys) then show ?case by simp
  qed
  have dw: "dropWhile (\<lambda>q. fst q \<le> res) (zip scs fls) = drop ?k (zip scs fls)"
    using assms
  proof (induction scs fls rule: list_induct2)
    case Nil then show ?case by simp
  next
    case (Cons x xs y ys) then show ?case by simp
  qed
  have "?k \<le> length scs" by (rule length_takeWhile_le)
  with assms show ?thesis
    by (simp add: splice_insertIndex placed_def tw dw take_zip drop_zip)
qed

lemma placed_length: "length (placed p ps) = Suc (length ps)"
proof -
  have "length (takeWhile (\<lambda>q. fst q \<le> fst p) ps) + length (dropWhile (\<lambda>q. fst q \<le> fst p) ps) = length ps"
    by (metis length_append takeWhile_dropWhile_id)
  then show ?thesis by (simp add: placed_def)
qed

lemma placed_mset: "mset (placed p ps) = add_mset p (mset ps)"
proof -
  have "mset (takeWhile (\<lambda>q. fst q \<le> fst p) ps) + mset (dropWhile (\<lambda>q. fst q \<le> fst p) ps) = mset ps"
    by (metis mset_append takeWhile_dropWhile_id)
  then show ?thesis by (simp add: placed_def)
qed

lemma sorted_dropWhile_above:
  "sorted (map fst ps) \<Longrightarrow> q \<in> set (dropWhile (\<lambda>q. fst q \<le> k) ps) \<Longrightarrow> k < fst (q :: rat \<times> string)"
proof (induction ps)
  case Nil then show ?case by simp
next
  case (Cons a ps)
  then show ?case by (auto split: if_splits)
qed

lemma placed_sorted:
  assumes "sorted (map fst ps)"
  shows "sorted (map fst (placed p ps))"
proof -
  let ?P = "\<lambda>q::rat \<times> string. fst q \<le> fst p"
  have a: "sorted (map fst (takeWhile ?P ps))"
    using assms by (metis sorted_wrt_map sorted_wrt_takeWhile)
  have b: "sorted (map fst (dropWhile ?P ps))"
    using assms by (metis sorted_wrt_map sorted_wrt_dropWhile)
  have c: "\<forall>q\<in>set (takeWhile ?P ps). fst q \<le> fst p"
    by (auto dest: set_takeWhileD)
  have d: "\<forall>q\<in>set (dropWhile ?P ps). fst p < fst q"
    using sorted_dropWhile_above [OF assms] by blast
  show ?thesis
    using a b c d by (fastforce simp: placed_def sorted_append)
qed

lemma placed_filter:
  assumes "sorted (map fst ps)"
  shows "filter (\<lambda>q. fst q = k) (placed p ps) =
         filter (\<lambda>q. fst q = k) ps @ (if fst p = k then [p] else [])"
proof -
  let ?P = "\<lambda>q::rat \<times> string. fst q \<le> fst p"
  have split: "filter (\<lambda>q. fst q = k) ps =
        filter (\<lambda>q. fst q = k) (takeWhile ?P ps) @ filter (\<lambda>q. fst q = k) (dropWhile ?P ps)"
    by (metis filter_append takeWhile_dropWhile_id)
  show ?thesis
  proof (cases "fst p = k")
    case True
    have "\<forall>q\<in>set (dropWhile ?P ps). fst q \<noteq> k"
      using sorted_dropWhile_above [OF assms, of _ "fst p"] True by fastforce
    then have "filter (\<lambda>q. fst q = k) (dropWhile ?P ps) = []"
      by (simp add: filter_empty_conv)
    with True split show ?thesis by (simp add: placed_def)
  next
    case False
    with split show ?thesis by (simp add: placed_def)
  qed
qed

lemma step_other:
  "assetName a \<noteq> n \<Longrightarrow> buildAssetMap_step w dir m (a, f) n = m n"
  by (simp add: buildAssetMap_step_def Let_def)

lemma step_same:
  "buildAssetMap_step w dir m (a, f) (assetName a) =
   Some (let r = (case m (assetName a) of None \<Rightarrow> \<lparr>scales = [], files = []\<rparr> | Some r \<Rightarrow> r);
             k = insertIndex_loop (resolution a) (scales r) 0
         in \<lparr>scales = splice_at k (resolution a) (scales r),
             files = splice_at k (join w dir f) (files r)\<rparr>)"
  by (simp add: buildAssetMap_step_def Let_def)

lemma record_ok_step:
  assumes "record_ok w dir fs n (buildAssetMap w dir fs n)"
  shows "record_ok w dir (fs @ [f]) n (buildAssetMap w dir (fs @ [f]) n)"
proof (cases "assetName (getAssetDataFromName w f) = n")
  case False
  then show ?thesis
    using assms by (simp add: buildAssetMap_snoc step_other record_ok_def variants_snoc split: option.splits)
next
  case True
  let ?a = "getAssetDataFromName w f"
  let ?p = "(resolution ?a, join w dir f)"
  obtain r0 where r0: "r0 = (case buildAssetMap w dir fs n of None \<Rightarrow> \<lparr>scales = [], files = []\<rparr> | Some r \<Rightarrow> r)"
    by simp
  have len0: "length (scales r0) = length (files r0)"
    using assms r0 by (auto simp: record_ok_def split: option.splits)
  have srt0: "sorted (map fst (zip (scales r0) (files r0)))"
    using assms r0 len0 by (auto simp: record_ok_def split: option.splits)
  have ms0: "mset (zip (scales r0) (files r0)) = mset (variants w dir n fs)"
    using assms r0 by (auto simp: record_ok_def split: option.splits)
  have fl0: "\<And>k. filter (\<lambda>q. fst q = k) (zip (scales r0) (files r0)) =
               filter (\<lambda>q. fst q = k) (variants w dir n fs)"
    using assms r0 by (auto simp: record_ok_def split: option.splits)
  let ?k = "insertIndex_loop (resolution ?a) (scales r0) 0"
  let ?r = "\<lparr>scales = splice_at ?k (resolution ?a) (scales r0),
            files = splice_at ?k (join w dir f) (files r0)\<rparr>"
  have new: "buildAssetMap w dir (fs @ [f]) n = Some ?r"
    using True r0 step_same [of w dir "buildAssetMap w dir fs" ?a f]
    by (simp add: buildAssetMap_snoc Let_def)
  have z: "zip (scales ?r) (files ?r) = placed ?p (zip (scales r0) (files r0))"
    using zip_splice [OF len0] by simp
  have len: "length (scales ?r) = length (files ?r)"
    using len0 by (simp add: splice_at_def)
  have srt: "sorted (scales ?r)"
    using placed_sorted [OF srt0, of ?p] len z by (metis map_fst_zip)
  have v: "variants w dir n (fs @ [f]) = variants w dir n fs @ [?p]"
    using True by (simp add: variants_snoc)
  have ms: "mset (zip (scales ?r) (files ?r)) = mset (variants w dir n (fs @ [f]))"
    by (simp only: z placed_mset v ms0) simp
  have fl: "\<And>k. filter (\<lambda>q. fst q = k) (zip (scales ?r) (files ?r)) =
               filter (\<lambda>q. fst q = k) (variants w dir n (fs @ [f]))"
    by (simp only: z placed_filter [OF srt0] v fl0) simp
  have ne: "variants w dir n (fs @ [f]) \<noteq> []"
    using v by simp
  show ?thesis
    unfolding new record_ok_def option.case
    by (intro conjI allI ne len srt ms fl)
qed

lemma buildAssetMap_record_ok: "record_ok w dir fs n (buildAssetMap w dir fs n)"
proof (induction fs rule: rev_induct)
  case Nil
  show ?case by (simp add: buildAssetMap_Nil record_ok_def variants_def)
next
  case (snoc f fs)
  then show ?case by (rule record_ok_step)
qed

lemma get_loop_found:
  "i \<le> j \<Longrightarrow> j < length (scales r) \<Longrightarrow> res \<le> scales r ! j \<Longrightarrow>
   (\<And>k. i \<le> k \<Longrightarrow> k < j \<Longrightarrow> scales r ! k < res) \<Longrightarrow>
   get_loop r res i = elementAt (files r) (int j)"
proof (induction r res i rule: get_loop.induct)
  case (1 rcd res i)
  show ?case
  proof (cases "i = j")
    case True
    with 1 show ?thesis by (subst get_loop.simps) simp
  next
    case False
    with 1 have "i < j" by simp
    then have "scales rcd ! i < res" using 1 by simp
    then have lt: "\<not> res \<le> scales rcd ! i" by simp
    have il: "i < length (scales rcd)" using \<open>i < j\<close> 1 by simp
    have "get_loop rcd res (Suc i) = elementAt (files rcd) (int j)"
      using 1 \<open>i < j\<close> lt il by (intro "1.IH") auto
    with lt il show ?thesis by (subst get_loop.simps) simp
  qed
qed

lemma get_loop_none:
  "(\<And>k. i \<le> k \<Longrightarrow> k < length (scales r) \<Longrightarrow> scales r ! k < res) \<Longrightarrow>
   get_loop r res i = elementAt (files r) (int (length (files r)) - 1)"
proof (induction r res i rule: get_loop.induct)
  case (1 rcd res i)
  show ?case
  proof (cases "i < length (scales rcd)")
    case True
    then have "scales rcd ! i < res" using 1 by simp
    then have lt: "\<not> res \<le> scales rcd ! i" by simp
    have "get_loop rcd res (Suc i) = elementAt (files rcd) (int (length (files rcd)) - 1)"
      using 1 True lt by (intro "1.IH") auto
    with lt True show ?thesis by (subst get_loop.simps) simp
  next
    case False
    then show ?thesis by (subst get_loop.simps) simp
  qed
qed

lemma first_at_least:
  fixes xs :: "rat list"
  assumes "\<exists>s\<in>set xs. res \<le> s"
  shows "\<exists>i<length xs. res \<le> xs ! i \<and> (\<forall>j<i. xs ! j < res)"
proof -
  let ?i = "length (takeWhile (\<lambda>s. s < res) xs)"
  have "?i < length xs"
    using assms length_takeWhile_le [of "\<lambda>s. s < res" xs]
    by (metis (mono_tags, lifting) linorder_not_le takeWhile_eq_all_conv takeWhile_eq_take take_all_iff)
  moreover have "res \<le> xs ! ?i"
    using \<open>?i < length xs\<close> nth_length_takeWhile [of "\<lambda>s. s < res" xs] by auto
  moreover have "\<forall>j<?i. xs ! j < res"
    by (metis nth_mem set_takeWhileD takeWhile_nth)
  ultimately show ?thesis by blast
qed

lemma sorted_first_is_Min:
  fixes xs :: "rat list"
  assumes "sorted xs" "i < length xs" "res \<le> xs ! i" "\<forall>j<i. xs ! j < res"
  shows "xs ! i = Min {s \<in> set xs. res \<le> s}"
proof (rule Min_eqI [symmetric])
  show "finite {s \<in> set xs. res \<le> s}" by simp
  show "xs ! i \<in> {s \<in> set xs. res \<le> s}" using assms by simp
  fix y assume "y \<in> {s \<in> set xs. res \<le> s}"
  then obtain k where k: "k < length xs" "xs ! k = y" "res \<le> y"
    by (auto simp: in_set_conv_nth)
  then have "\<not> k < i" using assms(4) by fastforce
  then show "xs ! i \<le> y"
    using assms(1) k by (metis linorder_not_less sorted_nth_mono)
qed

lemma sorted_last_is_Max:
  fixes xs :: "rat list"
  assumes "sorted xs" "xs \<noteq> []"
  shows "xs ! (length xs - 1) = Max (set xs)"
proof (rule Max_eqI [symmetric])
  show "finite (set xs)" by simp
  show "xs ! (length xs - 1) \<in> set xs" using assms by simp
  fix y assume "y \<in> set xs"
  then obtain k where "k < length xs" "xs ! k = y" by (auto simp: in_set_conv_nth)
  then show "y \<le> xs ! (length xs - 1)"
    using assms(1) by (metis Suc_pred' length_greater_0_conv assms(2) less_Suc_eq_le sorted_nth_mono diff_less zero_less_one)
qed

lemma getAssetRecord_built:
  assumes "u_getAssetRecord self w p = Inr r"
  shows "\<exists>dir fs. findRoot w (u_roots self) (dirname w p) = Inr dir \<and> readDir w dir = Inr fs \<and>
           buildAssetMap w dir fs (assetName (getAssetDataFromName w (basename w p))) = Some r"
  using assms
  by (auto simp: u_getAssetRecord_def Let_def split: sum.splits option.splits)

lemma built_record:
  assumes "buildAssetMap w dir fs n = Some r"
  shows "length (scales r) = length (files r)" "sorted (scales r)" "scales r \<noteq> []" "files r \<noteq> []"
    "mset (zip (scales r) (files r)) = mset (variants w dir n fs)"
    "filter (\<lambda>q. fst q = k) (zip (scales r) (files r)) = filter (\<lambda>q. fst q = k) (variants w dir n fs)"
proof -
  have ok: "record_ok w dir fs n (Some r)"
    using buildAssetMap_record_ok [of w dir fs n] assms by simp
  show l: "length (scales r) = length (files r)" and "sorted (scales r)"
    and m: "mset (zip (scales r) (files r)) = mset (variants w dir n fs)"
    and "filter (\<lambda>q. fst q = k) (zip (scales r) (files r)) = filter (\<lambda>q. fst q = k) (variants w dir n fs)"
    using ok by (simp_all add: record_ok_def)
  have "variants w dir n fs \<noteq> []" using ok by (simp add: record_ok_def)
  with m have "zip (scales r) (files r) \<noteq> []" by (metis mset_zero_iff)
  then show "scales r \<noteq> []" "files r \<noteq> []" by auto
qed

lemma set_completionOrder: "set (completionOrder d n) = {0..<n}"
  by (simp add: completionOrder_def)

lemma length_completionOrder: "length (completionOrder d n) = n"
  by (simp add: completionOrder_def)

lemma sorted_completionOrder: "sorted (map (\<lambda>i. (d i, i)) (completionOrder d n))"
  by (simp add: completionOrder_def)

lemma some_loop_one:
  "length errs + length ps = n \<Longrightarrow>
   some_loop (Suc 0) n ps [] errs =
     (case List.find (\<lambda>p. \<not> isl p) ps of
        Some p \<Rightarrow> Inr [projr p]
      | None \<Rightarrow> Inl (AggregateError (errs @ map projl ps)))"
proof (induction ps arbitrary: errs)
  case Nil
  then show ?case by simp
next
  case (Cons a ps)
  show ?case
  proof (cases a)
    case (Inr v)
    then show ?thesis by simp
  next
    case (Inl e)
    show ?thesis
    proof (cases "ps = []")
      case True
      with Inl Cons.prems show ?thesis by auto
    next
      case False
      then have "\<not> n - Suc 0 < Suc (length errs)"
        using Cons.prems by (cases ps) auto
      moreover have "some_loop (Suc 0) n ps [] (errs @ [e]) =
          (case List.find (\<lambda>p. \<not> isl p) ps of
             Some p \<Rightarrow> Inr [projr p]
           | None \<Rightarrow> Inl (AggregateError ((errs @ [e]) @ map projl ps)))"
        using Cons.prems by (intro Cons.IH) simp
      ultimately show ?thesis using Inl by (simp split: option.splits)
    qed
  qed
qed

lemma some_loop_first:
  "length ps = n \<Longrightarrow>
   some_loop (Suc 0) n ps [] [] =
     (case List.find (\<lambda>p. \<not> isl p) ps of
        Some p \<Rightarrow> Inr [projr p]
      | None \<Rightarrow> Inl (AggregateError (map projl ps)))"
  using some_loop_one [of "[]" ps n] by (simp split: option.splits)

lemma probe_snd: "\<not> isl (probe w dir rt) \<Longrightarrow> snd (projr (probe w dir rt)) = join w rt dir"
  by (auto simp: probe_def Let_def split: sum.splits if_splits)

lemma find_map: "List.find P (map f xs) = map_option f (List.find (\<lambda>x. P (f x)) xs)"
  by (induction xs) auto

lemma findRoot_eq:
  assumes "roots \<noteq> []"
  shows "findRoot w roots dir =
     (let order = completionOrder (\<lambda>i. lstatDone w (join w (roots ! i) dir)) (length roots)
      in case List.find (\<lambda>i. \<not> isl (probe w dir (roots ! i))) order of
           Some i \<Rightarrow> Inr (join w (roots ! i) dir)
         | None \<Rightarrow> Inl (AggregateError (map (\<lambda>i. projl (probe w dir (roots ! i))) order)))"
proof -
  let ?d = "\<lambda>i. lstatDone w (join w (roots ! i) dir)"
  let ?order = "completionOrder ?d (length roots)"
  let ?ps = "map (probe w dir) roots"
  have in_range: "\<And>i. i \<in> set ?order \<Longrightarrow> i < length roots"
    by (simp add: set_completionOrder)
  have settled: "map (\<lambda>i. ?ps ! i) ?order = map (\<lambda>i. probe w dir (roots ! i)) ?order"
    using in_range by (intro map_cong) auto
  have P: "Promise_some ?d ?ps (Suc 0) =
        (case List.find (\<lambda>p. \<not> isl p) (map (\<lambda>i. probe w dir (roots ! i)) ?order) of
           Some p \<Rightarrow> Inr [projr p]
         | None \<Rightarrow> Inl (AggregateError (map projl (map (\<lambda>i. probe w dir (roots ! i)) ?order))))"
    using assms some_loop_first [of "map (\<lambda>i. probe w dir (roots ! i)) ?order" "length roots"]
    by (simp add: Promise_some_def length_completionOrder settled)
  show ?thesis
  proof (cases "List.find (\<lambda>i. \<not> isl (probe w dir (roots ! i))) ?order")
    case None
    then show ?thesis
      by (simp add: findRoot_def P find_map Let_def)
  next
    case (Some i)
    then have "\<not> isl (probe w dir (roots ! i))"
      by (auto simp: find_Some_iff)
    then show ?thesis
      using Some by (simp add: findRoot_def P find_map Let_def probe_snd)
  qed
qed

section \<open>get: the selection\<close>

lemma elementAt_nth: "i < length xs \<Longrightarrow> elementAt xs (int i) = Some (xs ! i)"
  by (simp add: elementAt_def)

lemma elementAt_last: "xs \<noteq> [] \<Longrightarrow> elementAt xs (int (length xs) - 1) = Some (xs ! (length xs - 1))"
  by (cases xs) (auto simp: elementAt_def nat_diff_distrib' )

lemma get_loop_selects:
  assumes len: "length (files r) = length (scales r)" and ne: "scales r \<noteq> []"
  shows "if \<exists>s\<in>set (scales r). res \<le> s
         then \<exists>i<length (scales r). res \<le> scales r ! i \<and> (\<forall>j<i. scales r ! j < res) \<and>
                get_loop r res 0 = Some (files r ! i)
         else get_loop r res 0 = Some (files r ! (length (files r) - 1))"
proof (cases "\<exists>s\<in>set (scales r). res \<le> s")
  case True
  then obtain i where i: "i < length (scales r)" "res \<le> scales r ! i" "\<forall>j<i. scales r ! j < res"
    using first_at_least by blast
  then have "get_loop r res 0 = elementAt (files r) (int i)"
    by (intro get_loop_found) auto
  with i len True show ?thesis by (auto simp: elementAt_nth)
next
  case False
  then have "\<And>k. k < length (scales r) \<Longrightarrow> scales r ! k < res"
    by (meson linorder_not_le nth_mem)
  then have "get_loop r res 0 = elementAt (files r) (int (length (files r)) - 1)"
    by (intro get_loop_none) auto
  moreover have "files r \<noteq> []" using len ne by auto
  ultimately show ?thesis using False by (simp add: elementAt_last)
qed

text \<open>
  C9. Every record in the map returned by buildAssetMap has at least one entry,
  with as many files as scales, so that the read of the last file in get is inside
  the array, and the scan of get always ends on one of the files of the record.
\<close>

theorem buildAssetMap_records_nonempty:
  assumes "buildAssetMap w dir fs n = Some r"
  shows "scales r \<noteq> [] \<and> files r \<noteq> [] \<and> length (files r) = length (scales r) \<and>
         elementAt (files r) (int (length (files r)) - 1) = Some (last (files r)) \<and>
         (\<exists>f\<in>set (files r). get_loop r res 0 = Some f)"
proof -
  note b = built_record [OF assms]
  have len: "length (files r) = length (scales r)" using b(1) by simp
  have last: "elementAt (files r) (int (length (files r)) - 1) = Some (last (files r))"
    using b(4) by (simp add: elementAt_last last_conv_nth)
  have "\<exists>f\<in>set (files r). get_loop r res 0 = Some f"
  proof (cases "\<exists>s\<in>set (scales r). res \<le> s")
    case True
    then obtain i where "i < length (scales r)" "get_loop r res 0 = Some (files r ! i)"
      using get_loop_selects [OF len b(3), of res] by auto
    then show ?thesis using len by (metis nth_mem)
  next
    case False
    then have "get_loop r res 0 = Some (files r ! (length (files r) - 1))"
      using get_loop_selects [OF len b(3), of res] by simp
    then show ?thesis using b(4) by (metis diff_less length_greater_0_conv nth_mem zero_less_one)
  qed
  with b len last show ?thesis by blast
qed

theorem buildAssetMap_records_nonempty_witness:
  "buildAssetMap (posixEnv projTree atOnce) ''/proj/img''
      [''icon@3x.png'', ''photo.jpg'', ''icon.png'', ''icon@2x.png''] ''icon.png''
     = Some \<lparr>scales = [1, 2, 3],
             files = [''/proj/img/icon.png'', ''/proj/img/icon@2x.png'', ''/proj/img/icon@3x.png'']\<rparr>
   \<and> elementAt [''/proj/img/icon.png'', ''/proj/img/icon@2x.png'', ''/proj/img/icon@3x.png''] 2
       = Some ''/proj/img/icon@3x.png''"
proof -
  let ?r = "\<lparr>scales = [1, 2, 3],
             files = [''/proj/img/icon.png'', ''/proj/img/icon@2x.png'', ''/proj/img/icon@3x.png'']\<rparr>"
  have h: "buildAssetMap (posixEnv projTree atOnce) ''/proj/img''
      [''icon@3x.png'', ''photo.jpg'', ''icon.png'', ''icon@2x.png''] ''icon.png'' = Some ?r"
    by code_simp
  from buildAssetMap_records_nonempty [OF h, of 5] h show ?thesis
    by simp
qed

section \<open>buildAssetMap: order of the variants\<close>

lemma variants_mset:
  "mset fs' = mset fs \<Longrightarrow> mset (variants w dir n fs') = mset (variants w dir n fs)"
  by (simp add: variants_def)

lemma zip_is_sort_key:
  assumes "buildAssetMap w dir fs n = Some r"
  shows "zip (scales r) (files r) = sort_key fst (variants w dir n fs)"
proof (rule properties_for_sort_key [symmetric])
  note b = built_record [OF assms]
  show "mset (zip (scales r) (files r)) = mset (variants w dir n fs)" by (rule b(5))
  show "sorted (map fst (zip (scales r) (files r)))" using b(1,2) by simp
  fix k assume "k \<in> set (zip (scales r) (files r))"
  have flip: "filter (\<lambda>x. fst k = fst x) zs = filter (\<lambda>q. fst q = fst k) zs"
    for zs :: "(rat \<times> string) list"
    by (rule filter_cong) auto
  show "filter (\<lambda>x. fst k = fst x) (zip (scales r) (files r)) =
        filter (\<lambda>x. fst k = fst x) (variants w dir n fs)"
    unfolding flip by (rule b(6))
qed

lemma scales_is_sort:
  assumes "buildAssetMap w dir fs n = Some r"
  shows "scales r = sort (map fst (variants w dir n fs))"
proof -
  note b = built_record [OF assms]
  have "map fst (zip (scales r) (files r)) = scales r"
    using b(1) by simp
  then have "mset (scales r) = mset (map fst (variants w dir n fs))"
    using arg_cong [OF b(5), of "image_mset fst"] by (simp flip: mset_map)
  with b(2) show ?thesis by (intro properties_for_sort [symmetric])
qed

lemma built_iff_variants:
  "(buildAssetMap w dir fs n = None) = (variants w dir n fs = [])"
  using buildAssetMap_record_ok [of w dir fs n]
  by (auto simp: record_ok_def split: option.splits)

text \<open>
  C2. For every directory listing, the record that buildAssetMap makes for an asset
  name has as many scales as files; its scales are in ascending order and its files
  are permuted the same way, the pairs of scale and file being the stable sort by
  resolution of the listed variants of that name, so that among files of the same
  resolution the one listed first comes first. Every permutation of the listing
  gives a record with the same scales and the same set of files.
\<close>

theorem buildAssetMap_sorted_stable:
  assumes "buildAssetMap w dir fs n = Some r"
  shows "length (scales r) = length (files r) \<and>
         sorted (scales r) \<and>
         scales r = sort (map fst (variants w dir n fs)) \<and>
         mset (zip (scales r) (files r)) = mset (variants w dir n fs) \<and>
         zip (scales r) (files r) = sort_key fst (variants w dir n fs) \<and>
         (\<forall>k. filter (\<lambda>q. fst q = k) (zip (scales r) (files r)) =
              filter (\<lambda>q. fst q = k) (variants w dir n fs)) \<and>
         (\<forall>fs'. mset fs' = mset fs \<longrightarrow>
            (\<exists>r'. buildAssetMap w dir fs' n = Some r' \<and> scales r' = scales r \<and>
                  mset (files r') = mset (files r)))"
proof -
  note b = built_record [OF assms]
  have perm: "\<exists>r'. buildAssetMap w dir fs' n = Some r' \<and> scales r' = scales r \<and>
                  mset (files r') = mset (files r)" if p: "mset fs' = mset fs" for fs'
  proof -
    have v: "mset (variants w dir n fs') = mset (variants w dir n fs)"
      using p by (rule variants_mset)
    have "variants w dir n fs \<noteq> []" using assms built_iff_variants [of w dir fs n] by simp
    then have "variants w dir n fs' \<noteq> []" using v by auto
    then obtain r' where r': "buildAssetMap w dir fs' n = Some r'"
      using built_iff_variants [of w dir fs' n] by auto
    note b' = built_record [OF r']
    have "mset (map fst (variants w dir n fs')) = mset (map fst (variants w dir n fs))"
      using v by simp
    then have "sort (map fst (variants w dir n fs')) = sort (map fst (variants w dir n fs))"
      by (intro properties_for_sort) simp_all
    then have s: "scales r' = scales r"
      using scales_is_sort [OF r'] scales_is_sort [OF assms] by simp
    have "mset (map snd (zip (scales r') (files r'))) = mset (map snd (zip (scales r) (files r)))"
      using b(5) b'(5) v by (simp only: mset_map)
    then have "mset (files r') = mset (files r)"
      using b(1) b'(1) by simp
    with r' s show ?thesis by blast
  qed
  show ?thesis
  proof (intro conjI allI impI)
    show "length (scales r) = length (files r)" by (rule b(1))
    show "sorted (scales r)" by (rule b(2))
    show "scales r = sort (map fst (variants w dir n fs))" by (rule scales_is_sort [OF assms])
    show "mset (zip (scales r) (files r)) = mset (variants w dir n fs)" by (rule b(5))
    show "zip (scales r) (files r) = sort_key fst (variants w dir n fs)"
      by (rule zip_is_sort_key [OF assms])
    show "filter (\<lambda>q. fst q = k) (zip (scales r) (files r)) =
          filter (\<lambda>q. fst q = k) (variants w dir n fs)" for k by (rule b(6))
    show "\<exists>r'. buildAssetMap w dir fs' n = Some r' \<and> scales r' = scales r \<and>
                  mset (files r') = mset (files r)" if "mset fs' = mset fs" for fs'
      using that by (rule perm)
  qed
qed

theorem buildAssetMap_sorted_stable_witness:
  "buildAssetMap (posixEnv projTree atOnce) ''/d'' [''a@3x.png'', ''a.png'', ''a@2x.png'', ''a@1x.png''] ''a.png''
     = Some \<lparr>scales = [1, 1, 2, 3], files = [''/d/a.png'', ''/d/a@1x.png'', ''/d/a@2x.png'', ''/d/a@3x.png'']\<rparr>
   \<and> (\<exists>r'. buildAssetMap (posixEnv projTree atOnce) ''/d'' [''a@2x.png'', ''a@1x.png'', ''a@3x.png'', ''a.png''] ''a.png'' = Some r'
          \<and> scales r' = [1, 1, 2, 3]
          \<and> mset (files r') = mset [''/d/a.png'', ''/d/a@1x.png'', ''/d/a@2x.png'', ''/d/a@3x.png''])"
proof -
  let ?r = "\<lparr>scales = [1, 1, 2, 3], files = [''/d/a.png'', ''/d/a@1x.png'', ''/d/a@2x.png'', ''/d/a@3x.png'']\<rparr>"
  have h: "buildAssetMap (posixEnv projTree atOnce) ''/d'' [''a@3x.png'', ''a.png'', ''a@2x.png'', ''a@1x.png''] ''a.png'' = Some ?r"
    by code_simp
  have p: "mset [''a@2x.png'', ''a@1x.png'', ''a@3x.png'', ''a.png''] = mset [''a@3x.png'', ''a.png'', ''a@2x.png'', ''a@1x.png'']"
    by simp
  from buildAssetMap_sorted_stable [OF h, THEN conjunct2, THEN conjunct2, THEN conjunct2,
      THEN conjunct2, THEN conjunct2, THEN conjunct2, THEN spec, THEN mp, OF p]
  have "\<exists>r'. buildAssetMap (posixEnv projTree atOnce) ''/d'' [''a@2x.png'', ''a@1x.png'', ''a@3x.png'', ''a.png''] ''a.png'' = Some r'
          \<and> scales r' = scales ?r \<and> mset (files r') = mset (files ?r)"
    .
  with h show ?thesis by simp
qed

text \<open>
  C1. When get finds a record for the requested asset, the scales of the record
  are in ascending order and get returns what readFile returns for the file at the
  first scale greater than or equal to the requested resolution, which is the
  least such scale; when no scale qualifies it returns what readFile returns for
  the last file, the one at the highest scale.
\<close>

theorem get_rounds_up:
  assumes "u_getAssetRecord self w assetPath = Inr r"
  shows "sorted (scales r) \<and> length (files r) = length (scales r) \<and> scales r \<noteq> [] \<and>
         (if \<exists>s\<in>set (scales r). resolution (getAssetDataFromName w assetPath) \<le> s
          then \<exists>i<length (scales r).
                 resolution (getAssetDataFromName w assetPath) \<le> scales r ! i \<and>
                 (\<forall>j<i. scales r ! j < resolution (getAssetDataFromName w assetPath)) \<and>
                 scales r ! i =
                   Min {s \<in> set (scales r). resolution (getAssetDataFromName w assetPath) \<le> s} \<and>
                 get self w assetPath = readFile w (files r ! i)
          else scales r ! (length (scales r) - 1) = Max (set (scales r)) \<and>
               get self w assetPath = readFile w (files r ! (length (files r) - 1)))"
proof -
  let ?res = "resolution (getAssetDataFromName w assetPath)"
  obtain dir fs where
    "buildAssetMap w dir fs (assetName (getAssetDataFromName w (basename w assetPath))) = Some r"
    using getAssetRecord_built [OF assms] by blast
  note b = built_record [OF this]
  have len: "length (files r) = length (scales r)" using b(1) by simp
  have g: "get self w assetPath = readFile_promise w (get_loop r ?res 0)"
    using assms by (simp add: get_def Let_def)
  note sel = get_loop_selects [OF len b(3), of ?res]
  have sel': "if \<exists>s\<in>set (scales r). ?res \<le> s
          then \<exists>i<length (scales r). ?res \<le> scales r ! i \<and> (\<forall>j<i. scales r ! j < ?res) \<and>
                 scales r ! i = Min {s \<in> set (scales r). ?res \<le> s} \<and>
                 get self w assetPath = readFile w (files r ! i)
          else scales r ! (length (scales r) - 1) = Max (set (scales r)) \<and>
               get self w assetPath = readFile w (files r ! (length (files r) - 1))"
  proof (cases "\<exists>s\<in>set (scales r). ?res \<le> s")
    case True
    then obtain i where i: "i < length (scales r)" "?res \<le> scales r ! i"
        "\<forall>j<i. scales r ! j < ?res" "get_loop r ?res 0 = Some (files r ! i)"
      using sel by auto
    have "scales r ! i = Min {s \<in> set (scales r). ?res \<le> s}"
      using b(2) i(1,2,3) by (rule sorted_first_is_Min)
    with i g True show ?thesis by (auto simp: readFile_promise_def)
  next
    case False
    then have "get_loop r ?res 0 = Some (files r ! (length (files r) - 1))"
      using sel by simp
    moreover have "scales r ! (length (scales r) - 1) = Max (set (scales r))"
      using b(2) b(3) by (rule sorted_last_is_Max)
    ultimately show ?thesis using g False by (simp add: readFile_promise_def)
  qed
  show ?thesis
    by (intro conjI b(2) len b(3) sel')
qed

theorem get_rounds_up_witness:
  "get projServer (posixEnv projTree atOnce) ''img/icon@2x.png'' = Inr ''two'' \<and>
   get projServer (posixEnv projTree atOnce) ''img/icon@2.5x.png'' = Inr ''three'' \<and>
   get projServer (posixEnv projTree atOnce) ''img/icon@5x.png'' = Inr ''three''"
proof -
  let ?w = "posixEnv projTree atOnce"
  let ?r = "\<lparr>scales = [1, 2, 3],
             files = [''/proj/img/icon.png'', ''/proj/img/icon@2x.png'', ''/proj/img/icon@3x.png'']\<rparr>"
  have r2: "u_getAssetRecord projServer ?w ''img/icon@2x.png'' = Inr ?r" by code_simp
  have r25: "u_getAssetRecord projServer ?w ''img/icon@2.5x.png'' = Inr ?r" by code_simp
  have r5: "u_getAssetRecord projServer ?w ''img/icon@5x.png'' = Inr ?r" by code_simp
  have q2: "resolution (getAssetDataFromName ?w ''img/icon@2x.png'') = 2" by code_simp
  have q25: "resolution (getAssetDataFromName ?w ''img/icon@2.5x.png'') = 5 / 2" by code_simp
  have q5: "resolution (getAssetDataFromName ?w ''img/icon@5x.png'') = 5" by code_simp
  have f2: "readFile ?w ''/proj/img/icon@2x.png'' = Inr ''two''" by code_simp
  have f3: "readFile ?w ''/proj/img/icon@3x.png'' = Inr ''three''" by code_simp
  have a: "get projServer ?w ''img/icon@2x.png'' = Inr ''two''"
    using get_rounds_up [OF r2] f2 f3 unfolding q2
    by (auto simp: less_Suc_eq numeral_3_eq_3 numeral_2_eq_2)
  have b: "get projServer ?w ''img/icon@2.5x.png'' = Inr ''three''"
    using get_rounds_up [OF r25] f2 f3 unfolding q25
    by (auto simp: less_Suc_eq numeral_3_eq_3 numeral_2_eq_2)
  have c: "get projServer ?w ''img/icon@5x.png'' = Inr ''three''"
    using get_rounds_up [OF r5] f2 f3 unfolding q5
    by (auto simp: less_Suc_eq numeral_3_eq_3 numeral_2_eq_2)
  from a b c show ?thesis by simp
qed

section \<open>findRoot: which root is found\<close>

lemma probe_fulfilled_iff:
  "(\<not> isl (probe w dir rt)) = (\<exists>st. lstat w (join w rt dir) = Inr st \<and> isDirectory st)"
  by (auto simp: probe_def Let_def split: sum.splits)

lemma probe_reason:
  "isl (probe w dir rt) \<Longrightarrow>
   projl (probe w dir rt) =
     (case lstat w (join w rt dir) of Inl e \<Rightarrow> e | Inr st \<Rightarrow> Error ''Looking for dirs'')"
  by (auto simp: probe_def Let_def split: sum.splits if_splits)

lemma find_sorted_least:
  fixes key :: "nat \<Rightarrow> nat \<times> nat"
  assumes "sorted (map key xs)" "List.find P xs = Some i" "j \<in> set xs" "P j"
  shows "key i \<le> key j"
proof -
  obtain k where k: "k < length xs" "xs ! k = i" "\<forall>l<k. \<not> P (xs ! l)"
    using assms(2) by (auto simp: find_Some_iff)
  obtain m where m: "m < length xs" "xs ! m = j"
    using assms(3) by (auto simp: in_set_conv_nth)
  have "k \<le> m" using k(3) m(2) assms(4) by (meson linorder_not_less)
  then have "map key xs ! k \<le> map key xs ! m"
    using assms(1) m(1) by (intro sorted_nth_mono) auto
  then show ?thesis using k m by simp
qed

text \<open>
  C3, as amended. When some root contains the directory, findRoot returns the
  candidate path of a root that contains it, and that root is the first of them
  whose probe completes (the earlier in root order of two that complete
  together). It is the first such root in root order when the probes complete in
  root order.
\<close>

theorem findRoot_first_completed:
  assumes "\<exists>i<length roots. \<exists>st. lstat w (join w (roots ! i) dir) = Inr st \<and> isDirectory st"
  shows "\<exists>i<length roots.
           findRoot w roots dir = Inr (join w (roots ! i) dir) \<and>
           (\<exists>st. lstat w (join w (roots ! i) dir) = Inr st \<and> isDirectory st) \<and>
           (\<forall>j<length roots.
              (\<exists>st. lstat w (join w (roots ! j) dir) = Inr st \<and> isDirectory st) \<longrightarrow>
              lstatDone w (join w (roots ! i) dir) < lstatDone w (join w (roots ! j) dir) \<or>
              (lstatDone w (join w (roots ! i) dir) = lstatDone w (join w (roots ! j) dir) \<and> i \<le> j)) \<and>
           ((\<forall>a b. a \<le> b \<and> b < length roots \<longrightarrow>
               lstatDone w (join w (roots ! a) dir) \<le> lstatDone w (join w (roots ! b) dir)) \<longrightarrow>
            (\<forall>j<i. \<not> (\<exists>st. lstat w (join w (roots ! j) dir) = Inr st \<and> isDirectory st)))"
proof -
  let ?t = "\<lambda>i. lstatDone w (join w (roots ! i) dir)"
  let ?order = "completionOrder ?t (length roots)"
  let ?P = "\<lambda>i. \<not> isl (probe w dir (roots ! i))"
  let ?D = "\<lambda>i. \<exists>st. lstat w (join w (roots ! i) dir) = Inr st \<and> isDirectory st"
  have PD: "?P i = ?D i" for i by (rule probe_fulfilled_iff)
  from assms obtain i0 where i0: "i0 < length roots" "?P i0"
    unfolding PD by blast
  then have ne: "roots \<noteq> []" by auto
  have "i0 \<in> set ?order" using i0 by (simp add: set_completionOrder)
  then have "List.find ?P ?order \<noteq> None"
    using i0(2) by (auto simp: find_None_iff)
  then obtain i where f: "List.find ?P ?order = Some i" by auto
  then have "i \<in> set ?order" "?P i"
    by (auto simp: find_Some_iff)
  then have i: "i < length roots" "?D i"
    unfolding PD by (simp_all add: set_completionOrder)
  have res: "findRoot w roots dir = Inr (join w (roots ! i) dir)"
    using findRoot_eq [OF ne, of w dir] f by (simp add: Let_def)
  have least: "?t i < ?t j \<or> (?t i = ?t j \<and> i \<le> j)" if "j < length roots" "?D j" for j
  proof -
    have "j \<in> set ?order" using that by (simp add: set_completionOrder)
    moreover have "?P j" using that unfolding PD by simp
    ultimately have "(?t i, i) \<le> (?t j, j)"
      using find_sorted_least [OF sorted_completionOrder f] by blast
    then show ?thesis by (auto simp: less_eq_prod_def)
  qed
  have inorder: "\<not> ?D j"
    if mono: "\<forall>a b. a \<le> b \<and> b < length roots \<longrightarrow> ?t a \<le> ?t b" and "j < i" for j
  proof
    assume "?D j"
    then have "?t i < ?t j \<or> (?t i = ?t j \<and> i \<le> j)"
      using least [of j] \<open>j < i\<close> i(1) by simp
    moreover have "?t j \<le> ?t i" using mono \<open>j < i\<close> i(1) by simp
    ultimately show False using \<open>j < i\<close> by auto
  qed
  show ?thesis
    using i res least inorder by blast
qed

theorem findRoot_first_completed_witness:
  "findRoot (posixEnv abTree bFirst) [''/X'', ''/A'', ''/B''] ''d'' = Inr ''/B/d''"
proof -
  let ?w = "posixEnv abTree bFirst"
  let ?roots = "[''/X'', ''/A'', ''/B'']"
  let ?D = "\<lambda>i. \<exists>st. lstat ?w (join ?w (?roots ! i) ''d'') = Inr st \<and> isDirectory st"
  let ?t = "\<lambda>i. lstatDone ?w (join ?w (?roots ! i) ''d'')"
  have l0: "lstat ?w (join ?w ''/X'' ''d'') = Inl (SystemError ''ENOENT'' ''/X/d'')"
    by code_simp
  have l1: "lstat ?w (join ?w ''/A'' ''d'') = Inr \<lparr>isDirectory = True, mtime = 0\<rparr>"
    by code_simp
  have l2: "lstat ?w (join ?w ''/B'' ''d'') = Inr \<lparr>isDirectory = True, mtime = 0\<rparr>"
    by code_simp
  have t1: "lstatDone ?w (join ?w ''/A'' ''d'') = 2" by code_simp
  have t2: "lstatDone ?w (join ?w ''/B'' ''d'') = 1" by code_simp
  have j2: "join ?w ''/B'' ''d'' = ''/B/d''" by code_simp
  have d2: "?D 2" using l2 by simp
  have h: "\<exists>i<length ?roots. ?D i"
    using d2 by (intro exI [of _ 2]) simp
  from findRoot_first_completed [OF h]
  obtain i where i: "i < length ?roots"
    and res: "findRoot ?w ?roots ''d'' = Inr (join ?w (?roots ! i) ''d'')"
    and di: "?D i"
    and least: "\<forall>j<length ?roots. ?D j \<longrightarrow> ?t i < ?t j \<or> (?t i = ?t j \<and> i \<le> j)"
    by blast
  from i have "i = 0 \<or> i = 1 \<or> i = 2" by auto
  then have "i = 2"
  proof (elim disjE)
    assume "i = 0"
    with di l0 show ?thesis by simp
  next
    assume i1: "i = 1"
    have "2 < length ?roots" by simp
    from least [rule_format, OF this d2]
    have "?t i < ?t 2 \<or> (?t i = ?t 2 \<and> i \<le> 2)" .
    with i1 t1 t2 show ?thesis by simp
  next
    assume "i = 2"
    then show ?thesis .
  qed
  with res j2 show ?thesis by simp
qed

theorem findRoot_root_order_counterexample:
  "probe (posixEnv abTree bFirst) ''d'' ''/A'' = Inr (\<lparr>isDirectory = True, mtime = 0\<rparr>, ''/A/d'') \<and>
   probe (posixEnv abTree bFirst) ''d'' ''/B'' = Inr (\<lparr>isDirectory = True, mtime = 0\<rparr>, ''/B/d'') \<and>
   findRoot (posixEnv abTree bFirst) [''/A'', ''/B''] ''d'' = Inr ''/B/d'' \<and>
   findRoot (posixEnv abTree bFirst) [''/A'', ''/B''] ''d'' \<noteq> Inr ''/A/d''"
  by code_simp

text \<open>
  C4, as amended. A probe that is rejected, for whatever reason, is skipped: when
  some root contains the directory, findRoot is fulfilled with the candidate path
  of such a root, whatever the errors of the other probes; when no root contains
  it, findRoot is rejected with an aggregate error that holds the reason of every
  probe, in the order of completion, each error of lstat unchanged and
  \<^verbatim>\<open>Looking for dirs\<close> for a path that is not a directory.
\<close>

theorem findRoot_skips_rejected:
  assumes "roots \<noteq> []"
  shows "if \<exists>i<length roots. \<exists>st. lstat w (join w (roots ! i) dir) = Inr st \<and> isDirectory st
         then \<exists>i<length roots.
                findRoot w roots dir = Inr (join w (roots ! i) dir) \<and>
                (\<exists>st. lstat w (join w (roots ! i) dir) = Inr st \<and> isDirectory st)
         else findRoot w roots dir =
                Inl (AggregateError
                  (map (\<lambda>i. case lstat w (join w (roots ! i) dir) of
                               Inl e \<Rightarrow> e
                             | Inr st \<Rightarrow> Error ''Looking for dirs'')
                     (completionOrder (\<lambda>i. lstatDone w (join w (roots ! i) dir)) (length roots))))"
proof (cases "\<exists>i<length roots. \<exists>st. lstat w (join w (roots ! i) dir) = Inr st \<and> isDirectory st")
  case True
  let ?t = "\<lambda>i. lstatDone w (join w (roots ! i) dir)"
  let ?order = "completionOrder ?t (length roots)"
  let ?P = "\<lambda>i. \<not> isl (probe w dir (roots ! i))"
  from True obtain i0 where i0: "i0 < length roots" "?P i0"
    unfolding probe_fulfilled_iff by blast
  then have "i0 \<in> set ?order" by (simp add: set_completionOrder)
  then have "List.find ?P ?order \<noteq> None"
    using i0(2) by (auto simp: find_None_iff)
  then obtain i where f: "List.find ?P ?order = Some i" by auto
  then have "i \<in> set ?order" "?P i"
    by (auto simp: find_Some_iff)
  then have "i < length roots" "\<exists>st. lstat w (join w (roots ! i) dir) = Inr st \<and> isDirectory st"
    unfolding probe_fulfilled_iff by (simp_all add: set_completionOrder)
  moreover have "findRoot w roots dir = Inr (join w (roots ! i) dir)"
    using findRoot_eq [OF assms, of w dir] f by (simp add: Let_def)
  ultimately show ?thesis using True by auto
next
  case False
  let ?t = "\<lambda>i. lstatDone w (join w (roots ! i) dir)"
  let ?order = "completionOrder ?t (length roots)"
  let ?P = "\<lambda>i. \<not> isl (probe w dir (roots ! i))"
  have all: "isl (probe w dir (roots ! i))" if "i \<in> set ?order" for i
  proof -
    have "i < length roots" using that by (simp add: set_completionOrder)
    then show ?thesis using False probe_fulfilled_iff [of w dir "roots ! i"] by blast
  qed
  then have "List.find ?P ?order = None"
    by (auto simp: find_None_iff)
  then have "findRoot w roots dir =
      Inl (AggregateError (map (\<lambda>i. projl (probe w dir (roots ! i))) ?order))"
    using findRoot_eq [OF assms, of w dir] by (simp add: Let_def)
  moreover have "map (\<lambda>i. projl (probe w dir (roots ! i))) ?order =
      map (\<lambda>i. case lstat w (join w (roots ! i) dir) of
                  Inl e \<Rightarrow> e | Inr st \<Rightarrow> Error ''Looking for dirs'') ?order"
    using all by (intro map_cong refl probe_reason) 
  ultimately show ?thesis using False by simp
qed

theorem findRoot_skips_rejected_witness:
  "findRoot (posixEnv deniedTree atOnce) [''/A'', ''/C''] ''d'' =
     Inl (AggregateError [SystemError ''EACCES'' ''/A/d'', SystemError ''ENOENT'' ''/C/d''])"
proof -
  let ?w = "posixEnv deniedTree atOnce"
  have l0: "lstat ?w (join ?w ''/A'' ''d'') = Inl (SystemError ''EACCES'' ''/A/d'')"
    by code_simp
  have l1: "lstat ?w (join ?w ''/C'' ''d'') = Inl (SystemError ''ENOENT'' ''/C/d'')"
    by code_simp
  have ord: "completionOrder (\<lambda>i. lstatDone ?w (join ?w ([''/A'', ''/C''] ! i) ''d''))
               (length [''/A'', ''/C'']) = [0, 1]"
    by code_simp
  have ne: "[''/A'', ''/C''] \<noteq> ([] :: string list)" by simp
  have no: "\<not> (\<exists>i<length [''/A'', ''/C''].
             \<exists>st. lstat ?w (join ?w ([''/A'', ''/C''] ! i) ''d'') = Inr st \<and> isDirectory st)"
  proof
    assume "\<exists>i<length [''/A'', ''/C''].
             \<exists>st. lstat ?w (join ?w ([''/A'', ''/C''] ! i) ''d'') = Inr st \<and> isDirectory st"
    then obtain i st where i: "i < length [''/A'', ''/C'']"
      and st: "lstat ?w (join ?w ([''/A'', ''/C''] ! i) ''d'') = Inr st"
      by blast
    from i have "i = 0 \<or> i = 1" by auto
    then show False using st l0 l1 by auto
  qed
  have "findRoot ?w [''/A'', ''/C''] ''d'' =
          Inl (AggregateError
            (map (\<lambda>i. case lstat ?w (join ?w ([''/A'', ''/C''] ! i) ''d'') of
                         Inl e \<Rightarrow> e
                       | Inr st \<Rightarrow> Error ''Looking for dirs'')
               (completionOrder (\<lambda>i. lstatDone ?w (join ?w ([''/A'', ''/C''] ! i) ''d''))
                  (length [''/A'', ''/C'']))))"
    using findRoot_skips_rejected [OF ne, of ?w "''d''"] unfolding if_not_P [OF no] .
  then show ?thesis
    unfolding ord using l0 l1 by simp
qed

theorem findRoot_propagates_counterexample:
  "probe (posixEnv deniedTree atOnce) ''d'' ''/A'' = Inl (SystemError ''EACCES'' ''/A/d'') \<and>
   findRoot (posixEnv deniedTree atOnce) [''/A'', ''/B''] ''d'' = Inr ''/B/d'' \<and>
   findRoot (posixEnv deniedTree atOnce) [''/A'', ''/B''] ''d'' \<noteq> Inl (SystemError ''EACCES'' ''/A/d'')"
  by code_simp

section \<open>Failures and metadata\<close>

lemma findRoot_rejections:
  "findRoot w roots dir = Inl e \<Longrightarrow> (\<exists>m. e = RangeError m) \<or> (\<exists>es. e = AggregateError es)"
proof (cases "roots = []")
  case True
  assume "findRoot w roots dir = Inl e"
  with True show ?thesis by (auto simp: findRoot_def Promise_some_def)
next
  case False
  assume "findRoot w roots dir = Inl e"
  then show ?thesis
    using findRoot_eq [OF False, of w dir] by (auto simp: Let_def split: option.splits)
qed

lemma findRoot_none:
  assumes "\<forall>i<length roots. \<not> (\<exists>st. lstat w (join w (roots ! i) dir) = Inr st \<and> isDirectory st)"
  shows "\<exists>e. findRoot w roots dir = Inl e"
proof (cases "roots = []")
  case True
  then show ?thesis by (simp add: findRoot_def Promise_some_def)
next
  case False
  let ?order = "completionOrder (\<lambda>i. lstatDone w (join w (roots ! i) dir)) (length roots)"
  have "List.find (\<lambda>i. \<not> isl (probe w dir (roots ! i))) ?order = None"
    using assms by (auto simp: find_None_iff set_completionOrder probe_fulfilled_iff)
  then show ?thesis
    using findRoot_eq [OF False, of w dir] by (simp add: Let_def)
qed

text \<open>
  C7. When the directory of the request is found under a root and can be listed,
  and the listing has no file of the requested asset name, the lookup of the
  record, get and getAssetData all fail with the error \<^verbatim>\<open>Asset not found\<close>. When
  no root contains the directory of a request, findRoot is rejected and the
  lookup of the record, get and getAssetData fail with that same rejection of
  findRoot, which is a range or aggregate error and never \<^verbatim>\<open>Asset not found\<close>.
\<close>

theorem asset_not_found:
  assumes "findRoot w (u_roots self) (dirname w assetPath) = Inr dir"
    and "readDir w dir = Inr fs"
    and "buildAssetMap w dir fs (assetName (getAssetDataFromName w (basename w assetPath))) = None"
  shows "u_getAssetRecord self w assetPath = Inl (Error ''Asset not found'') \<and>
         get self w assetPath = Inl (Error ''Asset not found'') \<and>
         getAssetData self w assetPath = Inl (Error ''Asset not found'') \<and>
         (\<forall>w' roots' dir'. findRoot w' roots' dir' \<noteq> Inl (Error ''Asset not found'')) \<and>
         (\<forall>roots' dir'.
            (\<forall>i<length roots'.
               \<not> (\<exists>st. lstat w (join w (roots' ! i) dir') = Inr st \<and> isDirectory st)) \<longrightarrow>
            (\<exists>e. findRoot w roots' dir' = Inl e \<and> e \<noteq> Error ''Asset not found'')) \<and>
         (\<forall>w' self' assetPath'.
            (\<forall>i<length (u_roots self').
               \<not> (\<exists>st. lstat w' (join w' (u_roots self' ! i) (dirname w' assetPath')) = Inr st \<and>
                        isDirectory st)) \<longrightarrow>
            (\<exists>e. findRoot w' (u_roots self') (dirname w' assetPath') = Inl e \<and>
                 u_getAssetRecord self' w' assetPath' = Inl e \<and>
                 get self' w' assetPath' = Inl e \<and>
                 getAssetData self' w' assetPath' = Inl e \<and>
                 e \<noteq> Error ''Asset not found'' \<and>
                 ((\<exists>m. e = RangeError m) \<or> (\<exists>es. e = AggregateError es))))"
proof -
  have r: "u_getAssetRecord self w assetPath = Inl (Error ''Asset not found'')"
    using assms by (simp add: u_getAssetRecord_def Let_def)
  have g: "get self w assetPath = Inl (Error ''Asset not found'')"
    using r by (simp add: get_def Let_def)
  have d: "getAssetData self w assetPath = Inl (Error ''Asset not found'')"
    using r by (simp add: getAssetData_def Let_def)
  have never: "findRoot w' roots' dir' \<noteq> Inl (Error ''Asset not found'')" for w' roots' dir'
    using findRoot_rejections [of w' roots' dir' "Error ''Asset not found''"] by auto
  have missing: "\<exists>e. findRoot w' roots' dir' = Inl e \<and> e \<noteq> Error ''Asset not found''"
    if no: "\<forall>i<length roots'. \<not> (\<exists>st. lstat w' (join w' (roots' ! i) dir') = Inr st \<and> isDirectory st)"
    for w' roots' dir'
    using findRoot_none [OF no] never [of w' roots' dir'] by auto
  have nodir: "\<exists>e. findRoot w' (u_roots self') (dirname w' assetPath') = Inl e \<and>
                 u_getAssetRecord self' w' assetPath' = Inl e \<and>
                 get self' w' assetPath' = Inl e \<and>
                 getAssetData self' w' assetPath' = Inl e \<and>
                 e \<noteq> Error ''Asset not found'' \<and>
                 ((\<exists>m. e = RangeError m) \<or> (\<exists>es. e = AggregateError es))"
    if no: "\<forall>i<length (u_roots self').
               \<not> (\<exists>st. lstat w' (join w' (u_roots self' ! i) (dirname w' assetPath')) = Inr st \<and>
                        isDirectory st)"
    for w' self' assetPath'
  proof -
    obtain e where e: "findRoot w' (u_roots self') (dirname w' assetPath') = Inl e"
      and ne: "e \<noteq> Error ''Asset not found''"
      using missing [OF no] by blast
    have rec: "u_getAssetRecord self' w' assetPath' = Inl e"
      using e by (simp add: u_getAssetRecord_def Let_def)
    have "get self' w' assetPath' = Inl e"
      using rec by (simp add: get_def Let_def)
    moreover have "getAssetData self' w' assetPath' = Inl e"
      using rec by (simp add: getAssetData_def Let_def)
    moreover have "(\<exists>m. e = RangeError m) \<or> (\<exists>es. e = AggregateError es)"
      using e by (rule findRoot_rejections)
    ultimately show ?thesis using e rec ne by blast
  qed
  show ?thesis
  proof (intro conjI allI impI)
    show "u_getAssetRecord self w assetPath = Inl (Error ''Asset not found'')" by (rule r)
    show "get self w assetPath = Inl (Error ''Asset not found'')" by (rule g)
    show "getAssetData self w assetPath = Inl (Error ''Asset not found'')" by (rule d)
    show "findRoot w' roots' dir' \<noteq> Inl (Error ''Asset not found'')" for w' roots' dir'
      by (rule never)
    show "\<exists>e. findRoot w roots' dir' = Inl e \<and> e \<noteq> Error ''Asset not found''"
      if "\<forall>i<length roots'. \<not> (\<exists>st. lstat w (join w (roots' ! i) dir') = Inr st \<and> isDirectory st)"
      for roots' dir'
      using that by (rule missing)
    show "\<exists>e. findRoot w' (u_roots self') (dirname w' assetPath') = Inl e \<and>
                 u_getAssetRecord self' w' assetPath' = Inl e \<and>
                 get self' w' assetPath' = Inl e \<and>
                 getAssetData self' w' assetPath' = Inl e \<and>
                 e \<noteq> Error ''Asset not found'' \<and>
                 ((\<exists>m. e = RangeError m) \<or> (\<exists>es. e = AggregateError es))"
      if "\<forall>i<length (u_roots self').
               \<not> (\<exists>st. lstat w' (join w' (u_roots self' ! i) (dirname w' assetPath')) = Inr st \<and>
                        isDirectory st)"
      for w' self' assetPath'
      using that by (rule nodir)
  qed
qed

theorem asset_not_found_witness:
  "get projServer (posixEnv projTree atOnce) ''img/logo.png'' = Inl (Error ''Asset not found'') \<and>
   getAssetData projServer (posixEnv projTree atOnce) ''img/logo.png'' = Inl (Error ''Asset not found'') \<and>
   findRoot (posixEnv projTree atOnce) [''/proj''] ''fonts''
     = Inl (AggregateError [SystemError ''ENOENT'' ''/proj/fonts'']) \<and>
   u_getAssetRecord projServer (posixEnv projTree atOnce) ''fonts/logo.png''
     = Inl (AggregateError [SystemError ''ENOENT'' ''/proj/fonts'']) \<and>
   get projServer (posixEnv projTree atOnce) ''fonts/logo.png''
     = Inl (AggregateError [SystemError ''ENOENT'' ''/proj/fonts'']) \<and>
   getAssetData projServer (posixEnv projTree atOnce) ''fonts/logo.png''
     = Inl (AggregateError [SystemError ''ENOENT'' ''/proj/fonts''])"
proof -
  let ?w = "posixEnv projTree atOnce"
  have a: "findRoot ?w (u_roots projServer) (dirname ?w ''img/logo.png'') = Inr ''/proj/img''"
    by code_simp
  have b: "readDir ?w ''/proj/img'' = Inr [''icon@3x.png'', ''photo.jpg'', ''icon.png'', ''icon@2x.png'']"
    by code_simp
  have c: "buildAssetMap ?w ''/proj/img'' [''icon@3x.png'', ''photo.jpg'', ''icon.png'', ''icon@2x.png'']
             (assetName (getAssetDataFromName ?w (basename ?w ''img/logo.png''))) = None"
    by code_simp
  have e: "findRoot ?w [''/proj''] ''fonts'' = Inl (AggregateError [SystemError ''ENOENT'' ''/proj/fonts''])"
    by code_simp
  have rts: "u_roots projServer = [''/proj'']" by code_simp
  have dn: "dirname ?w ''fonts/logo.png'' = ''fonts''" by code_simp
  have l: "lstat ?w (join ?w ''/proj'' ''fonts'') = Inl (SystemError ''ENOENT'' ''/proj/fonts'')"
    by code_simp
  note t = asset_not_found [OF a b c]
  have no: "\<forall>i<length (u_roots projServer).
               \<not> (\<exists>st. lstat ?w (join ?w (u_roots projServer ! i) (dirname ?w ''fonts/logo.png'')) = Inr st \<and>
                        isDirectory st)"
    unfolding rts dn using l by simp
  from t [THEN conjunct2, THEN conjunct2, THEN conjunct2, THEN conjunct2, THEN conjunct2,
      THEN spec, THEN spec, THEN spec, THEN mp, OF no]
  obtain x where x: "findRoot ?w (u_roots projServer) (dirname ?w ''fonts/logo.png'') = Inl x"
      "u_getAssetRecord projServer ?w ''fonts/logo.png'' = Inl x"
      "get projServer ?w ''fonts/logo.png'' = Inl x"
      "getAssetData projServer ?w ''fonts/logo.png'' = Inl x"
    by blast
  from x(1) e have "x = AggregateError [SystemError ''ENOENT'' ''/proj/fonts'']"
    unfolding rts dn by simp
  with x t e show ?thesis by simp
qed

lemma all_fulfilled:
  "\<forall>p\<in>set ps. \<not> isl p \<Longrightarrow>
   ps = map Inr (concat (map (\<lambda>p. case p of Inl e \<Rightarrow> [] | Inr v \<Rightarrow> [v]) ps))"
proof (induction ps)
  case Nil
  show ?case by simp
next
  case (Cons p ps)
  then show ?case by (cases p) auto
qed

lemma Promise_all_Inr:
  assumes "Promise_all t ps = Inr vs"
  shows "ps = map Inr vs"
proof -
  let ?settled = "map (\<lambda>i. ps ! i) (completionOrder t (length ps))"
  let ?vals = "concat (map (\<lambda>p. case p of Inl e \<Rightarrow> [] | Inr v \<Rightarrow> [v]) ps)"
  have fn: "List.find isl ?settled = None"
  proof (cases "List.find isl ?settled")
    case None
    then show ?thesis .
  next
    case (Some p)
    then have "isl p" by (auto simp: find_Some_iff)
    then obtain e where e: "p = Inl e" by (cases p) auto
    have "Promise_all t ps = Inl e"
      unfolding Promise_all_def Some e by simp
    with assms show ?thesis by simp
  qed
  have "Promise_all t ps = Inr ?vals"
    unfolding Promise_all_def fn by simp
  with assms have vs: "vs = ?vals" by simp
  have "\<not> isl p" if mem: "p \<in> set ps" for p
  proof -
    obtain i where i: "i < length ps" "ps ! i = p"
      using mem by (auto simp: in_set_conv_nth)
    then have "i \<in> set (completionOrder t (length ps))"
      by (simp add: set_completionOrder)
    then have "p \<in> set ?settled" using i(2) by force
    then show ?thesis using fn by (auto simp: find_None_iff)
  qed
  then have "\<forall>p\<in>set ps. \<not> isl p" by blast
  then show ?thesis unfolding vs by (rule all_fulfilled)
qed

lemma Promise_all_fulfilled: "Promise_all t (map Inr vs) = Inr vs"
proof -
  let ?ps = "map Inr vs :: (error + 'a) list"
  have fn: "List.find isl (map (\<lambda>i. ?ps ! i) (completionOrder t (length ?ps))) = None"
    by (auto simp: find_None_iff set_completionOrder)
  have c: "concat (map (\<lambda>p. case p of Inl e \<Rightarrow> [] | Inr v \<Rightarrow> [v]) ?ps) = vs"
    by (induction vs) auto
  show ?thesis
    unfolding Promise_all_def fn c by simp
qed

lemma getAssetData_run:
  assumes "u_getAssetRecord self w assetPath = Inr r"
    and "map (lstat w) (files r) = map Inr stats"
  shows "getAssetData self w assetPath =
           Inr \<lparr>data.name = name (getAssetDataFromName w assetPath), data.type = ''png'',
                data.scales = scales r, hash = digest (hashed stats)\<rparr>"
  using assms by (simp add: getAssetData_def Let_def Promise_all_fulfilled)

lemma getAssetData_Inr:
  assumes "getAssetData self w assetPath = Inr d"
  shows "\<exists>r stats. u_getAssetRecord self w assetPath = Inr r \<and>
           map (lstat w) (files r) = map Inr stats \<and>
           d = \<lparr>data.name = name (getAssetDataFromName w assetPath), data.type = ''png'',
                data.scales = scales r, hash = digest (hashed stats)\<rparr>"
proof -
  obtain r where r: "u_getAssetRecord self w assetPath = Inr r"
    using assms by (cases "u_getAssetRecord self w assetPath") (auto simp: getAssetData_def Let_def)
  let ?all = "Promise_all (\<lambda>i. lstatDone w (files r ! i)) (map (lstat w) (files r))"
  obtain stats where s: "?all = Inr stats"
    using assms r by (cases ?all) (auto simp: getAssetData_def Let_def)
  have "map (lstat w) (files r) = map Inr stats"
    using s by (rule Promise_all_Inr)
  moreover have "d = \<lparr>data.name = name (getAssetDataFromName w assetPath), data.type = ''png'',
                data.scales = scales r, hash = digest (hashed stats)\<rparr>"
    using assms r s by (simp add: getAssetData_def Let_def)
  ultimately show ?thesis using r by blast
qed

text \<open>
  C8, as amended. The metadata getAssetData returns has the type \<^verbatim>\<open>png\<close>, whatever
  the extension parsed from the asset path, alongside the name parsed from the
  path, the scales of the record, and the digest of the modification times of the
  record's files.
\<close>

theorem getAssetData_fields:
  assumes "getAssetData self w assetPath = Inr d"
  shows "data.type d = ''png'' \<and>
         data.name d = name (getAssetDataFromName w assetPath) \<and>
         (\<exists>r stats. u_getAssetRecord self w assetPath = Inr r \<and>
            data.scales d = scales r \<and>
            map (lstat w) (files r) = map Inr stats \<and>
            hash d = digest (hashed stats))"
proof -
  obtain r stats where "u_getAssetRecord self w assetPath = Inr r"
      "map (lstat w) (files r) = map Inr stats"
      "d = \<lparr>data.name = name (getAssetDataFromName w assetPath), data.type = ''png'',
            data.scales = scales r, hash = digest (hashed stats)\<rparr>"
    using getAssetData_Inr [OF assms] by blast
  then show ?thesis by auto
qed

theorem getAssetData_fields_witness:
  "getAssetData projServer (posixEnv projTree atOnce) ''img/icon@2x.png'' =
     Inr \<lparr>data.name = ''icon'', data.type = ''png'', data.scales = [1, 2, 3],
          hash = md5 ''143570880000014357088002501435708800500''\<rparr>"
proof -
  let ?w = "posixEnv projTree atOnce"
  let ?r = "\<lparr>scales = [1, 2, 3],
             files = [''/proj/img/icon.png'', ''/proj/img/icon@2x.png'', ''/proj/img/icon@3x.png'']\<rparr>"
  let ?stats = "[\<lparr>isDirectory = False, mtime = 1435708800000\<rparr>,
                 \<lparr>isDirectory = False, mtime = 1435708800250\<rparr>,
                 \<lparr>isDirectory = False, mtime = 1435708800500\<rparr>]"
  have r: "u_getAssetRecord projServer ?w ''img/icon@2x.png'' = Inr ?r" by code_simp
  have s: "map (lstat ?w) (files ?r) = map Inr ?stats" by code_simp
  have n: "name (getAssetDataFromName ?w ''img/icon@2x.png'') = ''icon''" by code_simp
  have h: "hashed ?stats = ''143570880000014357088002501435708800500''" by code_simp
  have run: "getAssetData projServer ?w ''img/icon@2x.png'' =
      Inr \<lparr>data.name = ''icon'', data.type = ''png'', data.scales = [1, 2, 3],
           hash = md5 ''143570880000014357088002501435708800500''\<rparr>"
    using getAssetData_run [OF r s] by (simp add: n h digest_def)
  from getAssetData_fields [OF run] run show ?thesis by simp
qed

theorem getAssetData_type_counterexample:
  "type (getAssetDataFromName (posixEnv projTree atOnce) ''img/photo.jpg'') = ''jpg'' \<and>
   getAssetData projServer (posixEnv projTree atOnce) ''img/photo.jpg'' =
     Inr \<lparr>data.name = ''photo'', data.type = ''png'', data.scales = [1],
          hash = md5 ''1435708800750''\<rparr>"
proof -
  let ?w = "posixEnv projTree atOnce"
  let ?r = "\<lparr>scales = [1], files = [''/proj/img/photo.jpg'']\<rparr>"
  let ?stats = "[\<lparr>isDirectory = False, mtime = 1435708800750\<rparr>]"
  have t: "type (getAssetDataFromName ?w ''img/photo.jpg'') = ''jpg''" by code_simp
  have r: "u_getAssetRecord projServer ?w ''img/photo.jpg'' = Inr ?r" by code_simp
  have s: "map (lstat ?w) (files ?r) = map Inr ?stats" by code_simp
  have n: "name (getAssetDataFromName ?w ''img/photo.jpg'') = ''photo''" by code_simp
  have h: "hashed ?stats = ''1435708800750''" by code_simp
  have "getAssetData projServer ?w ''img/photo.jpg'' =
      Inr \<lparr>data.name = ''photo'', data.type = ''png'', data.scales = [1],
           hash = md5 ''1435708800750''\<rparr>"
    using getAssetData_run [OF r s] by (simp add: n h digest_def)
  with t show ?thesis by simp
qed

section \<open>What the results do not depend on\<close>

lemma listed_file_in_record:
  assumes "f \<in> set fs"
  shows "\<exists>r. buildAssetMap w dir fs (assetName (getAssetDataFromName w f)) = Some r \<and>
             join w dir f \<in> set (files r)"
proof -
  let ?n = "assetName (getAssetDataFromName w f)"
  let ?p = "(resolution (getAssetDataFromName w f), join w dir f)"
  have in_v: "?p \<in> set (variants w dir ?n fs)"
    using assms by (auto simp: variants_def)
  then have "variants w dir ?n fs \<noteq> []" by auto
  then obtain r where r: "buildAssetMap w dir fs ?n = Some r"
    using built_iff_variants [of w dir fs ?n] by auto
  note b = built_record [OF r]
  have "set (zip (scales r) (files r)) = set (variants w dir ?n fs)"
    using b(5) by (rule mset_eq_setD)
  then have "?p \<in> set (zip (scales r) (files r))" using in_v by simp
  then have "join w dir f \<in> set (files r)" by (rule set_zip_rightD)
  with r show ?thesis by blast
qed

text \<open>
  C10. Two instances made from options with the same project roots give the same
  results of get and getAssetData on every path in every file system, whatever
  their asset extensions. No entry of a listing is filtered out when the map is
  built: every listed file is in the record of its asset name.
\<close>

theorem assetExts_never_consulted:
  assumes "projectRoots (validateOpts optsA) = projectRoots (validateOpts optsB)"
  shows "get (AssetServer validateOpts optsA) w assetPath = get (AssetServer validateOpts optsB) w assetPath \<and>
         getAssetData (AssetServer validateOpts optsA) w assetPath =
           getAssetData (AssetServer validateOpts optsB) w assetPath \<and>
         (\<forall>f\<in>set fs. \<exists>r. buildAssetMap w dir fs (assetName (getAssetDataFromName w f)) = Some r \<and>
                            join w dir f \<in> set (files r))"
proof -
  have "u_getAssetRecord (AssetServer validateOpts optsA) w assetPath =
        u_getAssetRecord (AssetServer validateOpts optsB) w assetPath"
    using assms by (simp add: u_getAssetRecord_def AssetServer_def Let_def)
  then show ?thesis
    using listed_file_in_record [of _ fs w dir]
    by (simp add: get_def getAssetData_def Let_def)
qed

theorem assetExts_never_consulted_witness:
  "get (AssetServer id \<lparr>projectRoots = [''/proj''], assetExts = [''png'']\<rparr>)
       (posixEnv projTree atOnce) ''img/photo.jpg'' = Inr ''photo'' \<and>
   get (AssetServer id \<lparr>projectRoots = [''/proj''], assetExts = [''gif'', ''jpg'']\<rparr>)
       (posixEnv projTree atOnce) ''img/photo.jpg'' = Inr ''photo''"
proof -
  let ?o1 = "\<lparr>projectRoots = [''/proj''], assetExts = [''png'']\<rparr>"
  let ?o2 = "\<lparr>projectRoots = [''/proj''], assetExts = [''gif'', ''jpg'']\<rparr>"
  have h: "projectRoots (id ?o1) = projectRoots (id ?o2)" by simp
  have a: "get (AssetServer id ?o1) (posixEnv projTree atOnce) ''img/photo.jpg'' = Inr ''photo''"
    by code_simp
  from assetExts_never_consulted [where validateOpts = id and optsA = ?o1 and optsB = ?o2
      and w = "posixEnv projTree atOnce" and assetPath = "''img/photo.jpg''", OF h, THEN conjunct1] a
  show ?thesis by simp
qed

lemma filter_key_singleton:
  "distinct (map f zs) \<Longrightarrow> k \<in> set zs \<Longrightarrow> filter (\<lambda>x. f k = f x) zs = [k]"
proof (induction zs)
  case Nil
  then show ?case by simp
next
  case (Cons a zs)
  show ?case
  proof (cases "k = a")
    case True
    have "\<forall>x\<in>set zs. f a \<noteq> f x" using Cons.prems(1) by auto
    then have "filter (\<lambda>x. f a = f x) zs = []" by (simp add: filter_empty_conv)
    with True show ?thesis by simp
  next
    case False
    then have k: "k \<in> set zs" using Cons.prems(2) by simp
    have "f a \<notin> f ` set zs" using Cons.prems(1) by simp
    then have "f k \<noteq> f a" using k by (metis imageI)
    then show ?thesis using Cons.IH k Cons.prems(1) by simp
  qed
qed

lemma sort_key_unique:
  assumes "mset ys = mset xs" "distinct (map f xs)"
  shows "sort_key f xs = sort_key f ys"
proof (rule properties_for_sort_key)
  show "mset (sort_key f ys) = mset xs" using assms(1) by simp
  show "sorted (map f (sort_key f ys))" by simp
  fix k assume k: "k \<in> set (sort_key f ys)"
  have "mset (map f (sort_key f ys)) = mset (map f xs)" using assms(1) by simp
  then have d: "distinct (map f (sort_key f ys))"
    using assms(2) by (metis mset_eq_imp_distinct_iff)
  have "set ys = set xs" using assms(1) by (rule mset_eq_setD)
  then have kx: "k \<in> set xs" using k by simp
  show "filter (\<lambda>x. f k = f x) (sort_key f ys) = filter (\<lambda>x. f k = f x) xs"
    using filter_key_singleton [OF d k] filter_key_singleton [OF assms(2) kx] by simp
qed

lemma buildAssetMap_permuted:
  assumes "mset fs' = mset fs" "distinct (map fst (variants w dir n fs))"
  shows "buildAssetMap w dir fs' n = buildAssetMap w dir fs n"
proof (cases "buildAssetMap w dir fs n")
  case None
  then have "variants w dir n fs = []" by (simp add: built_iff_variants)
  then have "variants w dir n fs' = []"
    using variants_mset [OF assms(1), of w dir n] by simp
  then have "buildAssetMap w dir fs' n = None" by (simp add: built_iff_variants)
  then show ?thesis unfolding None .
next
  case (Some r)
  have v: "mset (variants w dir n fs') = mset (variants w dir n fs)"
    using assms(1) by (rule variants_mset)
  have "variants w dir n fs \<noteq> []" using Some built_iff_variants [of w dir fs n] by simp
  then have "variants w dir n fs' \<noteq> []" using v by auto
  then obtain r' where r': "buildAssetMap w dir fs' n = Some r'"
    using built_iff_variants [of w dir fs' n] by auto
  note b = built_record [OF Some] and b' = built_record [OF r']
  have z: "zip (scales r') (files r') = zip (scales r) (files r)"
    using zip_is_sort_key [OF r'] zip_is_sort_key [OF Some] sort_key_unique [OF v assms(2)]
    by simp
  have "scales r' = scales r"
    using arg_cong [OF z, of "map fst"] b(1) b'(1) by simp
  moreover have "files r' = files r"
    using arg_cong [OF z, of "map snd"] b(1) b'(1) by simp
  ultimately have "r' = r" by simp
  with r' Some show ?thesis by simp
qed

lemma buildAssetMap_step_readDir:
  "buildAssetMap_step (w\<lparr>readDir := rd\<rparr>) dir = buildAssetMap_step w dir"
  by (intro ext) (simp add: buildAssetMap_step_def)

lemma buildAssetMap_readDir:
  "buildAssetMap (w\<lparr>readDir := rd\<rparr>) dir fs = buildAssetMap w dir fs"
  by (simp add: buildAssetMap_def buildAssetMap_step_readDir)

lemma findRoot_readDir:
  "findRoot (w\<lparr>readDir := rd\<rparr>) roots dir = findRoot w roots dir"
proof -
  have "probe (w\<lparr>readDir := rd\<rparr>) dir = probe w dir"
    by (intro ext) (simp add: probe_def)
  then show ?thesis by (simp add: findRoot_def)
qed

text \<open>
  C5, as amended. When the variant files of the requested asset have pairwise
  distinct resolutions, listing the directory in another order gives the same
  result of getAssetData, and so the same hash. (Files of equal resolution are
  kept in listing order, and their times are hashed in that order.)
\<close>

theorem getAssetData_listing_order:
  assumes "findRoot w (u_roots self) (dirname w assetPath) = Inr dir"
    and "readDir w dir = Inr fs"
    and "mset fs' = mset fs"
    and "distinct (map fst
           (variants w dir (assetName (getAssetDataFromName w (basename w assetPath))) fs))"
  shows "getAssetData self (w\<lparr>readDir := (readDir w)(dir := Inr fs')\<rparr>) assetPath =
         getAssetData self w assetPath"
proof -
  let ?w' = "w\<lparr>readDir := (readDir w)(dir := Inr fs')\<rparr>"
  let ?n = "assetName (getAssetDataFromName w (basename w assetPath))"
  have m: "buildAssetMap w dir fs' ?n = buildAssetMap w dir fs ?n"
    using assms(3,4) by (rule buildAssetMap_permuted)
  have "u_getAssetRecord self ?w' assetPath = u_getAssetRecord self w assetPath"
    using assms(1,2) m
    by (simp add: u_getAssetRecord_def Let_def findRoot_readDir buildAssetMap_readDir)
  then show ?thesis
    by (simp add: getAssetData_def Let_def split: sum.splits)
qed

theorem getAssetData_listing_order_witness:
  "getAssetData projServer
     ((posixEnv projTree atOnce)
        \<lparr>readDir := (readDir (posixEnv projTree atOnce))
           (''/proj/img'' := Inr [''icon.png'', ''icon@2x.png'', ''icon@3x.png'', ''photo.jpg''])\<rparr>)
     ''img/icon.png'' =
   getAssetData projServer (posixEnv projTree atOnce) ''img/icon.png''"
proof -
  let ?w = "posixEnv projTree atOnce"
  let ?fs = "[''icon@3x.png'', ''photo.jpg'', ''icon.png'', ''icon@2x.png'']"
  have a: "findRoot ?w (u_roots projServer) (dirname ?w ''img/icon.png'') = Inr ''/proj/img''"
    by code_simp
  have b: "readDir ?w ''/proj/img'' = Inr ?fs"
    by code_simp
  have c: "mset [''icon.png'', ''icon@2x.png'', ''icon@3x.png'', ''photo.jpg''] = mset ?fs"
    by simp
  have d: "distinct (map fst
             (variants ?w ''/proj/img''
                (assetName (getAssetDataFromName ?w (basename ?w ''img/icon.png''))) ?fs))"
    by code_simp
  show ?thesis
    by (rule getAssetData_listing_order [OF a b c d])
qed

theorem getAssetData_listing_order_counterexample:
  "getAssetData projServer (posixEnv (tieTree [''icon.png'', ''icon@1x.png'']) atOnce) ''img/icon.png'' =
     Inr \<lparr>data.name = ''icon'', data.type = ''png'', data.scales = [1, 1],
          hash = ''f623490504108410a658fcd3cd69c91f''\<rparr> \<and>
   getAssetData projServer (posixEnv (tieTree [''icon@1x.png'', ''icon.png'']) atOnce) ''img/icon.png'' =
     Inr \<lparr>data.name = ''icon'', data.type = ''png'', data.scales = [1, 1],
          hash = ''cb22460b004109fce4fd2bb0036b1691''\<rparr> \<and>
   getAssetData projServer (posixEnv (tieTree [''icon.png'', ''icon@1x.png'']) atOnce) ''img/icon.png'' \<noteq>
   getAssetData projServer (posixEnv (tieTree [''icon@1x.png'', ''icon.png'']) atOnce) ''img/icon.png''"
proof -
  let ?w1 = "posixEnv (tieTree [''icon.png'', ''icon@1x.png'']) atOnce"
  let ?w2 = "posixEnv (tieTree [''icon@1x.png'', ''icon.png'']) atOnce"
  let ?r1 = "\<lparr>scales = [1, 1], files = [''/proj/img/icon.png'', ''/proj/img/icon@1x.png'']\<rparr>"
  let ?r2 = "\<lparr>scales = [1, 1], files = [''/proj/img/icon@1x.png'', ''/proj/img/icon.png'']\<rparr>"
  let ?s1 = "[\<lparr>isDirectory = False, mtime = 1435708800000\<rparr>,
              \<lparr>isDirectory = False, mtime = 1435708800250\<rparr>]"
  let ?s2 = "[\<lparr>isDirectory = False, mtime = 1435708800250\<rparr>,
              \<lparr>isDirectory = False, mtime = 1435708800000\<rparr>]"
  have r1: "u_getAssetRecord projServer ?w1 ''img/icon.png'' = Inr ?r1" by code_simp
  have r2: "u_getAssetRecord projServer ?w2 ''img/icon.png'' = Inr ?r2" by code_simp
  have s1: "map (lstat ?w1) (files ?r1) = map Inr ?s1" by code_simp
  have s2: "map (lstat ?w2) (files ?r2) = map Inr ?s2" by code_simp
  have n1: "name (getAssetDataFromName ?w1 ''img/icon.png'') = ''icon''" by code_simp
  have n2: "name (getAssetDataFromName ?w2 ''img/icon.png'') = ''icon''" by code_simp
  have h1: "hashed ?s1 = ''14357088000001435708800250''" by code_simp
  have h2: "hashed ?s2 = ''14357088002501435708800000''" by code_simp
  have m1: "md5 ''14357088000001435708800250'' = ''f623490504108410a658fcd3cd69c91f''"
    by code_simp
  have m2: "md5 ''14357088002501435708800000'' = ''cb22460b004109fce4fd2bb0036b1691''"
    by code_simp
  have a: "getAssetData projServer ?w1 ''img/icon.png'' =
      Inr \<lparr>data.name = ''icon'', data.type = ''png'', data.scales = [1, 1],
           hash = ''f623490504108410a658fcd3cd69c91f''\<rparr>"
    using getAssetData_run [OF r1 s1] by (simp add: n1 h1 m1 digest_def)
  have b: "getAssetData projServer ?w2 ''img/icon.png'' =
      Inr \<lparr>data.name = ''icon'', data.type = ''png'', data.scales = [1, 1],
           hash = ''cb22460b004109fce4fd2bb0036b1691''\<rparr>"
    using getAssetData_run [OF r2 s2] by (simp add: n2 h2 m2 digest_def)
  show ?thesis unfolding a b by simp
qed

section \<open>The fingerprint\<close>

lemma digit_char_code:
  assumes "0 \<le> d" "d < 10"
  shows "of_char (digit_char d) = (48 :: nat) + nat d"
proof -
  from assms have "d = 0 \<or> d = 1 \<or> d = 2 \<or> d = 3 \<or> d = 4 \<or> d = 5 \<or> d = 6 \<or> d = 7 \<or> d = 8 \<or> d = 9"
    by presburger
  then show ?thesis
    by (elim disjE) (simp_all add: digit_char_def)
qed

lemma decimal_snoc: "decimal (s @ [c]) = 10 * decimal s + (of_char c - 48)"
  by (simp add: decimal_def)

lemma decimal_digits: "0 \<le> n \<Longrightarrow> decimal (digits n) = nat n"
proof (induction n rule: digits.induct)
  case (1 n)
  show ?case
  proof (cases "n < 10")
    case True
    with 1 show ?thesis
      by (subst digits.simps) (simp add: decimal_def digit_char_code)
  next
    case False
    then have ih: "decimal (digits (n div 10)) = nat (n div 10)"
      using 1 by simp
    have m: "of_char (digit_char (n mod 10)) = (48 :: nat) + nat (n mod 10)"
      by (intro digit_char_code) simp_all
    have "nat n = nat (10 * (n div 10) + n mod 10)" by simp
    also have "\<dots> = nat (10 * (n div 10)) + nat (n mod 10)"
      using 1(2) by (intro nat_add_distrib) (simp_all add: pos_imp_zdiv_nonneg_iff)
    also have "nat (10 * (n div 10)) = 10 * nat (n div 10)"
      by (simp add: nat_mult_distrib)
    finally have "10 * nat (n div 10) + nat (n mod 10) = nat n" by simp
    with False ih m show ?thesis
      by (subst digits.simps) (simp add: decimal_snoc)
  qed
qed

lemma digits_inj: "0 \<le> n \<Longrightarrow> 0 \<le> m \<Longrightarrow> digits n = digits m \<Longrightarrow> n = m"
  using decimal_digits [of n] decimal_digits [of m] by simp

lemma digit_char_is_digit: "d < 10 \<Longrightarrow> digit_char d \<in> set ''0123456789''"
proof -
  assume "d < 10"
  then have "nat d < length ''0123456789''" by simp
  then show ?thesis unfolding digit_char_def by (rule nth_mem)
qed

lemma digits_are_digits: "set (digits n) \<subseteq> set ''0123456789''"
proof (induction n rule: digits.induct)
  case (1 n)
  show ?case
  proof (cases "n < 10")
    case True
    then show ?thesis
      using digit_char_is_digit [of n] by (subst digits.simps) simp
  next
    case False
    have "digit_char (n mod 10) \<in> set ''0123456789''"
      by (rule digit_char_is_digit) simp
    with False 1 show ?thesis
      by (subst digits.simps) simp
  qed
qed

lemma digits_nonempty: "digits n \<noteq> []"
  by (subst digits.simps) simp

lemma toString_nonempty: "toString i \<noteq> []"
  by (simp add: toString_def digits_nonempty)

lemma toString_inj:
  assumes "toString a = toString b"
  shows "a = b"
proof -
  have no_minus: "CHR ''-'' \<notin> set (digits n)" for n
    using digits_are_digits [of n] by auto
  have head: "hd (digits n) \<noteq> CHR ''-''" for n
    using no_minus [of n] digits_nonempty [of n] by (metis hd_in_set)
  show ?thesis
  proof (cases "a < 0")
    case True
    show ?thesis
    proof (cases "b < 0")
      case True
      with \<open>a < 0\<close> assms have "digits (- a) = digits (- b)" by (simp add: toString_def)
      then have "- a = - b" using True \<open>a < 0\<close> by (intro digits_inj) simp_all
      then show ?thesis by simp
    next
      case False
      with True assms have "CHR ''-'' # digits (- a) = digits b" by (simp add: toString_def)
      then have "hd (digits b) = CHR ''-''" by (metis list.sel(1))
      with head show ?thesis by blast
    qed
  next
    case False
    show ?thesis
    proof (cases "b < 0")
      case True
      with False assms have "digits a = CHR ''-'' # digits (- b)" by (simp add: toString_def)
      then have "hd (digits a) = CHR ''-''" by (metis list.sel(1))
      with head show ?thesis by blast
    next
      case nb: False
      with False assms have "digits a = digits b" by (simp add: toString_def)
      then show ?thesis using False nb by (intro digits_inj) simp_all
    qed
  qed
qed

lemma foldl_update:
  "foldl (\<lambda>h st. update h (f st)) h0 stats = h0 @ concat (map f stats)"
  by (induction stats arbitrary: h0) (simp_all add: update_def)

lemma hashed_concat: "hashed stats = concat (map (\<lambda>st. toString (mtime st)) stats)"
  by (simp add: hashed_def foldl_update createHash_def)

lemma hashed_changed:
  assumes "i < length stats" "t \<noteq> mtime (stats ! i)"
  shows "hashed (stats[i := (stats ! i)\<lparr>mtime := t\<rparr>]) \<noteq> hashed stats"
proof
  let ?f = "\<lambda>st. toString (mtime st)"
  let ?a = "concat (map ?f (take i stats))"
  let ?b = "concat (map ?f (drop (Suc i) stats))"
  assume eq: "hashed (stats[i := (stats ! i)\<lparr>mtime := t\<rparr>]) = hashed stats"
  have new: "hashed (stats[i := (stats ! i)\<lparr>mtime := t\<rparr>]) = ?a @ toString t @ ?b"
    using assms(1) by (simp add: hashed_concat upd_conv_take_nth_drop)
  have "stats = take i stats @ stats ! i # drop (Suc i) stats"
    using assms(1) by (rule id_take_nth_drop)
  then have "hashed stats = concat (map ?f (take i stats @ stats ! i # drop (Suc i) stats))"
    by (simp add: hashed_concat)
  then have old: "hashed stats = ?a @ toString (mtime (stats ! i)) @ ?b"
    by simp
  from eq new old have "toString t = toString (mtime (stats ! i))" by simp
  then have "t = mtime (stats ! i)" by (rule toString_inj)
  with assms(2) show False by simp
qed

lemma hashed_added: "hashed (splice_at i st stats) \<noteq> hashed stats"
proof
  let ?f = "\<lambda>st. toString (mtime st)"
  let ?a = "concat (map ?f (take i stats))"
  let ?b = "concat (map ?f (drop i stats))"
  assume eq: "hashed (splice_at i st stats) = hashed stats"
  have new: "hashed (splice_at i st stats) = ?a @ toString (mtime st) @ ?b"
    by (simp add: hashed_concat splice_at_def)
  have "hashed stats = concat (map ?f (take i stats @ drop i stats))"
    by (simp add: hashed_concat)
  then have old: "hashed stats = ?a @ ?b"
    by (simp only: map_append concat_append)
  from eq new old have "toString (mtime st) @ ?b = ?b" by simp
  then have "toString (mtime st) = []" by simp
  with toString_nonempty show False by blast
qed

text \<open>
  C6, as amended. The hash of the metadata is the MD5 digest of the decimal
  modification times of the files of the record, concatenated in the order of
  the record. It is the same for the same times in the same order; changing the
  time of one file, or adding a file among the others, changes the string that
  is digested.
\<close>

theorem fingerprint_of_times:
  assumes "u_getAssetRecord self w assetPath = Inr r"
    and "map (lstat w) (files r) = map Inr stats"
  shows "getAssetData self w assetPath =
           Inr \<lparr>data.name = name (getAssetDataFromName w assetPath), data.type = ''png'',
                data.scales = scales r,
                hash = md5 (concat (map (\<lambda>st. toString (mtime st)) stats))\<rparr> \<and>
         hashed stats = concat (map (\<lambda>st. toString (mtime st)) stats) \<and>
         (\<forall>stats'. map mtime stats' = map mtime stats \<longrightarrow> hashed stats' = hashed stats) \<and>
         (\<forall>i<length stats. \<forall>t. t \<noteq> mtime (stats ! i) \<longrightarrow>
            hashed (stats[i := (stats ! i)\<lparr>mtime := t\<rparr>]) \<noteq> hashed stats) \<and>
         (\<forall>i st. hashed (splice_at i st stats) \<noteq> hashed stats)"
proof -
  have same: "hashed stats' = hashed stats" if "map mtime stats' = map mtime stats" for stats'
  proof -
    have "map (\<lambda>st. toString (mtime st)) stats' = map toString (map mtime stats')"
      by simp
    also have "\<dots> = map toString (map mtime stats)" using that by simp
    also have "\<dots> = map (\<lambda>st. toString (mtime st)) stats" by simp
    finally show ?thesis by (simp only: hashed_concat)
  qed
  have run: "getAssetData self w assetPath =
           Inr \<lparr>data.name = name (getAssetDataFromName w assetPath), data.type = ''png'',
                data.scales = scales r,
                hash = md5 (concat (map (\<lambda>st. toString (mtime st)) stats))\<rparr>"
    using getAssetData_run [OF assms] unfolding digest_def hashed_concat .
  show ?thesis
  proof (intro conjI allI impI)
    show "getAssetData self w assetPath =
           Inr \<lparr>data.name = name (getAssetDataFromName w assetPath), data.type = ''png'',
                data.scales = scales r,
                hash = md5 (concat (map (\<lambda>st. toString (mtime st)) stats))\<rparr>"
      by (rule run)
    show "hashed stats = concat (map (\<lambda>st. toString (mtime st)) stats)"
      by (rule hashed_concat)
    show "hashed stats' = hashed stats" if "map mtime stats' = map mtime stats" for stats'
      using that by (rule same)
    show "hashed (stats[i := (stats ! i)\<lparr>mtime := t\<rparr>]) \<noteq> hashed stats"
      if "i < length stats" "t \<noteq> mtime (stats ! i)" for i t
      using that by (rule hashed_changed)
    show "hashed (splice_at i st stats) \<noteq> hashed stats" for i st
      by (rule hashed_added)
  qed
qed

theorem fingerprint_of_times_witness:
  "getAssetData projServer (posixEnv projTree atOnce) ''img/icon.png'' =
     Inr \<lparr>data.name = ''icon'', data.type = ''png'', data.scales = [1, 2, 3],
          hash = md5 ''143570880000014357088002501435708800500''\<rparr> \<and>
   hashed ([\<lparr>isDirectory = False, mtime = 1435708800000\<rparr>,
            \<lparr>isDirectory = False, mtime = 1435708800250\<rparr>,
            \<lparr>isDirectory = False, mtime = 1435708800500\<rparr>]
           [1 := \<lparr>isDirectory = False, mtime = 1435708800999\<rparr>]) \<noteq>
   hashed [\<lparr>isDirectory = False, mtime = 1435708800000\<rparr>,
           \<lparr>isDirectory = False, mtime = 1435708800250\<rparr>,
           \<lparr>isDirectory = False, mtime = 1435708800500\<rparr>]"
proof -
  let ?w = "posixEnv projTree atOnce"
  let ?r = "\<lparr>scales = [1, 2, 3],
             files = [''/proj/img/icon.png'', ''/proj/img/icon@2x.png'', ''/proj/img/icon@3x.png'']\<rparr>"
  let ?stats = "[\<lparr>isDirectory = False, mtime = 1435708800000\<rparr>,
                 \<lparr>isDirectory = False, mtime = 1435708800250\<rparr>,
                 \<lparr>isDirectory = False, mtime = 1435708800500\<rparr>]"
  have r: "u_getAssetRecord projServer ?w ''img/icon.png'' = Inr ?r" by code_simp
  have s: "map (lstat ?w) (files ?r) = map Inr ?stats" by code_simp
  have n: "name (getAssetDataFromName ?w ''img/icon.png'') = ''icon''" by code_simp
  have c: "concat (map (\<lambda>st. toString (mtime st)) ?stats) =
             ''143570880000014357088002501435708800500''" by code_simp
  note t = fingerprint_of_times [OF r s]
  have a: "getAssetData projServer ?w ''img/icon.png'' =
     Inr \<lparr>data.name = ''icon'', data.type = ''png'', data.scales = [1, 2, 3],
          hash = md5 ''143570880000014357088002501435708800500''\<rparr>"
    using t [THEN conjunct1] unfolding n c by simp
  have b: "hashed (?stats[1 := (?stats ! 1)\<lparr>mtime := 1435708800999\<rparr>]) \<noteq> hashed ?stats"
    by (rule t [THEN conjunct2, THEN conjunct2, THEN conjunct2, THEN conjunct1, rule_format])
       simp_all
  from a b show ?thesis by simp
qed

theorem fingerprint_sensitive_counterexample:
  "lstat (posixEnv (stampTree 1111111111111 111111111111) atOnce) ''/proj/img/icon.png'' =
     Inr \<lparr>isDirectory = False, mtime = 1111111111111\<rparr> \<and>
   lstat (posixEnv (stampTree 111111111111 1111111111111) atOnce) ''/proj/img/icon.png'' =
     Inr \<lparr>isDirectory = False, mtime = 111111111111\<rparr> \<and>
   getAssetData projServer (posixEnv (stampTree 1111111111111 111111111111) atOnce) ''img/icon.png'' =
     Inr \<lparr>data.name = ''icon'', data.type = ''png'', data.scales = [1, 2],
          hash = md5 ''1111111111111111111111111''\<rparr> \<and>
   getAssetData projServer (posixEnv (stampTree 111111111111 1111111111111) atOnce) ''img/icon.png'' =
     Inr \<lparr>data.name = ''icon'', data.type = ''png'', data.scales = [1, 2],
          hash = md5 ''1111111111111111111111111''\<rparr>"
proof -
  let ?w1 = "posixEnv (stampTree 1111111111111 111111111111) atOnce"
  let ?w2 = "posixEnv (stampTree 111111111111 1111111111111) atOnce"
  let ?r = "\<lparr>scales = [1, 2], files = [''/proj/img/icon.png'', ''/proj/img/icon@2x.png'']\<rparr>"
  let ?s1 = "[\<lparr>isDirectory = False, mtime = 1111111111111\<rparr>,
              \<lparr>isDirectory = False, mtime = 111111111111\<rparr>]"
  let ?s2 = "[\<lparr>isDirectory = False, mtime = 111111111111\<rparr>,
              \<lparr>isDirectory = False, mtime = 1111111111111\<rparr>]"
  have l1: "lstat ?w1 ''/proj/img/icon.png'' = Inr \<lparr>isDirectory = False, mtime = 1111111111111\<rparr>"
    by code_simp
  have l2: "lstat ?w2 ''/proj/img/icon.png'' = Inr \<lparr>isDirectory = False, mtime = 111111111111\<rparr>"
    by code_simp
  have r1: "u_getAssetRecord projServer ?w1 ''img/icon.png'' = Inr ?r" by code_simp
  have r2: "u_getAssetRecord projServer ?w2 ''img/icon.png'' = Inr ?r" by code_simp
  have s1: "map (lstat ?w1) (files ?r) = map Inr ?s1" by code_simp
  have s2: "map (lstat ?w2) (files ?r) = map Inr ?s2" by code_simp
  have n1: "name (getAssetDataFromName ?w1 ''img/icon.png'') = ''icon''" by code_simp
  have n2: "name (getAssetDataFromName ?w2 ''img/icon.png'') = ''icon''" by code_simp
  have h1: "hashed ?s1 = ''1111111111111111111111111''" by code_simp
  have h2: "hashed ?s2 = ''1111111111111111111111111''" by code_simp
  have a: "getAssetData projServer ?w1 ''img/icon.png'' =
      Inr \<lparr>data.name = ''icon'', data.type = ''png'', data.scales = [1, 2],
           hash = md5 ''1111111111111111111111111''\<rparr>"
    using getAssetData_run [OF r1 s1] by (simp add: n1 h1 digest_def)
  have b: "getAssetData projServer ?w2 ''img/icon.png'' =
      Inr \<lparr>data.name = ''icon'', data.type = ''png'', data.scales = [1, 2],
           hash = md5 ''1111111111111111111111111''\<rparr>"
    using getAssetData_run [OF r2 s2] by (simp add: n2 h2 digest_def)
  from l1 l2 a b show ?thesis by (intro conjI)
qed

end
